theory Spec2Isabelle
  imports Main
begin

section \<open>JavaScript values and strings\<close>

text \<open>
  A JavaScript string is modelled as a \<open>string\<close>, one \<open>char\<close> per UTF-16 code unit; the
  model covers the code units below 256. A value obtained from JSON (a request body, a
  parsed frame) is a \<open>json\<close>; a number keeps its lexeme. \<open>undefined\<close> (an absent
  property) is \<open>None\<close> of \<open>json option\<close>.
\<close>

datatype json =
    JNull
  | JBool bool
  | JNumber string
  | JString string
  | JArray "json list"
  | JObject "(string \<times> json) list"

type_synonym jsval = "json option"

text \<open>The code units below 256 that \<open>String.prototype.trim\<close> strips: TAB, LF, VT, FF, CR,
  SPACE and NO-BREAK SPACE.\<close>

definition is_space :: "char \<Rightarrow> bool" where
  "is_space c = (c \<in> set [CHR 0x09, CHR 0x0A, CHR 0x0B, CHR 0x0C, CHR 0x0D, CHR 0x20, CHR 0xA0])"

definition trim :: "string \<Rightarrow> string" where
  "trim s = rev (dropWhile is_space (rev (dropWhile is_space s)))"

text \<open>
  A number is falsy when the double that \<open>JSON.parse\<close> makes of its lexeme is zero.
  The lexeme with digits \<open>m\<close> (the integer part followed by the fraction) and the decimal
  exponent \<open>e\<close> (the written exponent less the length of the fraction) denotes
  \<open>m * 10 ^ e\<close>; the nearest double is zero when \<open>m\<close> is zero or the value is at most
  \<open>2 ^ -1075\<close>, half of the least positive double (a tie goes to the even neighbour,
  which is zero). A value above that rounds to a double that is not zero.
\<close>

definition digits_value :: "string \<Rightarrow> int" where
  "digits_value ds = foldl (\<lambda>n c. 10 * n + (of_char c - 48)) 0 ds"

definition exponent_value :: "string \<Rightarrow> int" where
  "exponent_value ex =
     (case ex of
        [] \<Rightarrow> 0
      | c # ds \<Rightarrow>
          if c = CHR ''-'' then - digits_value ds
          else if c = CHR ''+'' then digits_value ds
          else digits_value ex)"

definition number_is_zero :: "string \<Rightarrow> bool" where
  "number_is_zero lexeme =
     (let unsigned = (case lexeme of c # r \<Rightarrow> if c = CHR ''-'' then r else lexeme | [] \<Rightarrow> []);
          is_mark = (\<lambda>c. c = CHR ''e'' \<or> c = CHR ''E'');
          mantissa = takeWhile (\<lambda>c. \<not> is_mark c) unsigned;
          written = drop 1 (dropWhile (\<lambda>c. \<not> is_mark c) unsigned);
          fraction = drop 1 (dropWhile (\<lambda>c. c \<noteq> CHR ''.'') mantissa);
          m = digits_value (takeWhile (\<lambda>c. c \<noteq> CHR ''.'') mantissa @ fraction);
          e = exponent_value written - int (length fraction)
      in m = 0 \<or> (e < 0 \<and> m * 2 ^ 1075 \<le> 10 ^ nat (- e)))"

text \<open>JavaScript truthiness, as \<open>!x\<close>, \<open>x && ...\<close> and \<open>if (x)\<close> use it.\<close>

fun truthy :: "jsval \<Rightarrow> bool" where
  "truthy None = False"
| "truthy (Some JNull) = False"
| "truthy (Some (JBool b)) = b"
| "truthy (Some (JNumber n)) = (\<not> number_is_zero n)"
| "truthy (Some (JString s)) = (s \<noteq> [])"
| "truthy (Some (JArray xs)) = True"
| "truthy (Some (JObject kvs)) = True"

section \<open>The chat route: input validation\<close>

text \<open>The result \<open>{ valid: boolean; error?: string }\<close> of the two validators.\<close>

record validation =
  valid :: bool
  error :: "string option"

definition invalid :: "string \<Rightarrow> validation" where
  "invalid reason = \<lparr>valid = False, error = Some reason\<rparr>"

definition passed :: validation where
  "passed = \<lparr>valid = True, error = None\<rparr>"

text \<open>\<open>validateMessage(message: any)\<close>: the falsy check comes first, then the type check,
  then the two checks on the trimmed message.\<close>

definition validateMessage :: "jsval \<Rightarrow> validation" where
  "validateMessage message =
     (if \<not> truthy message then invalid ''Message is required''
      else case message of
        Some (JString s) \<Rightarrow>
          (let trimmedMessage = trim s in
           if trimmedMessage = [] then invalid ''Message cannot be empty''
           else if length trimmedMessage > 10000
             then invalid ''Message is too long. Maximum 10,000 characters allowed.''
           else passed)
      | _ \<Rightarrow> invalid ''Message must be a string'')"

text \<open>\<open>validateThreadId(threadId: any)\<close>.\<close>

definition validateThreadId :: "jsval \<Rightarrow> validation" where
  "validateThreadId threadId =
     (if \<not> truthy threadId then invalid ''Thread ID is required''
      else case threadId of
        Some (JString s) \<Rightarrow>
          (if length s < 1 \<or> length s > 100 then invalid ''Invalid Thread ID format''
           else passed)
      | _ \<Rightarrow> invalid ''Thread ID must be a string'')"

section \<open>The chat route: the stream relay\<close>

text \<open>\<open>s.startsWith(p)\<close> and \<open>s.includes(sub)\<close>.\<close>

definition starts_with :: "string \<Rightarrow> string \<Rightarrow> bool" where
  "starts_with s p = (take (length p) s = p)"

fun str_includes :: "string \<Rightarrow> string \<Rightarrow> bool" where
  "str_includes [] sub = (sub = [])"
| "str_includes (c # cs) sub = (starts_with (c # cs) sub \<or> str_includes cs sub)"

text \<open>Reading a property of a value that came from JSON. Only objects have properties of
  the names the code reads (\<open>message\<close>, \<open>threadId\<close>, \<open>event\<close>, \<open>data\<close>, \<open>type\<close>,
  \<open>content\<close>, \<open>retrieveDocuments\<close>, \<open>documents\<close>); on a string, number, boolean or
  array the read gives \<open>undefined\<close>. Reading a property of \<open>null\<close> throws, which the
  callers model where it can happen.\<close>

fun get_prop :: "json \<Rightarrow> string \<Rightarrow> jsval" where
  "get_prop (JObject kvs) k = map_of kvs k"
| "get_prop v k = None"

text \<open>The decimal numeral of a counter, as \<open>JSON.stringify\<close> prints it.\<close>

definition digit_char :: "nat \<Rightarrow> char" where
  "digit_char d = ''0123456789'' ! d"

function show_nat :: "nat \<Rightarrow> string" where
  "show_nat n = (if n < 10 then [digit_char n] else show_nat (n div 10) @ [digit_char (n mod 10)])"
  by pat_completeness auto
termination
  by (relation "measure id") auto

text \<open>
  What the upstream async iterator gives when the relay pulls its next chunk: a chunk,
  the end of the stream, or a thrown value (\<open>Some\<close> the message of an \<open>Error\<close>,
  \<open>None\<close> for a thrown value that is no \<open>Error\<close>). An upstream is the sequence of its
  answers, which may yield chunks forever. A chunk is an object that \<open>JSON.stringify\<close>
  serialises (given by the JSON it serialises to), an object on which
  \<open>JSON.stringify\<close> throws, or a value that is falsy or not an object.\<close>

datatype chunk = Forwardable json | Unserializable | NotAnObject

datatype upstream_item = Yield chunk | End | Throw "string option"

type_synonym upstream = "nat \<Rightarrow> upstream_item"

text \<open>What the relay does to the controller of the downstream \<open>ReadableStream\<close>:
  \<open>controller.enqueue\<close> of the frame \<open>data: <JSON>\n\n\<close>, given by its JSON, and
  \<open>controller.close()\<close>.\<close>

datatype ctrl_op = Enqueue json | Close

definition maxMessages :: nat where
  "maxMessages = 1000"

definition connectionFrame :: "string \<Rightarrow> json" where
  "connectionFrame ts = JObject
     [(''type'', JString ''connection''),
      (''message'', JString ''Connected to chat service''),
      (''timestamp'', JString ts)]"

definition completionFrame :: "string \<Rightarrow> nat \<Rightarrow> json" where
  "completionFrame ts messageCount = JObject
     [(''type'', JString ''completion''),
      (''message'', JString ''Chat response completed''),
      (''timestamp'', JString ts),
      (''totalMessages'', JNumber (show_nat messageCount))]"

definition errorFrame :: "bool \<Rightarrow> string option \<Rightarrow> string \<Rightarrow> json" where
  "errorFrame development thrown ts =
     (let errorMessage = (case thrown of Some m \<Rightarrow> m | None \<Rightarrow> ''Unknown streaming error'') in
      JObject
        [(''type'', JString ''error''),
         (''error'', JString ''Connection interrupted''),
         (''details'', JString (if development then errorMessage else ''Please try again'')),
         (''timestamp'', JString ts)])"

text \<open>The body of the inner \<open>try\<close> of the loop: a chunk that is a truthy object is
  enqueued; a failure of \<open>JSON.stringify\<close> is caught and logged, any other chunk is
  logged; the loop goes on in each case.\<close>

fun forward :: "chunk \<Rightarrow> ctrl_op list" where
  "forward (Forwardable j) = [Enqueue j]"
| "forward Unserializable = []"
| "forward NotAnObject = []"

text \<open>What the loop enqueues for one answer of the upstream.\<close>

fun item_out :: "upstream_item \<Rightarrow> ctrl_op list" where
  "item_out (Yield ch) = forward ch"
| "item_out x = []"

text \<open>The \<open>for await\<close> loop. \<open>messageCount\<close> chunks have been pulled so far, \<open>out\<close> is
  what the controller has received. The result is the counter, the controller's trace and
  the value the upstream threw, if it did. The pull that makes the counter exceed
  \<open>maxMessages\<close> leaves the loop by \<open>break\<close>.\<close>

function forwardChunks ::
  "upstream \<Rightarrow> nat \<Rightarrow> ctrl_op list \<Rightarrow> nat \<times> ctrl_op list \<times> string option option" where
  "forwardChunks stream messageCount out =
     (case stream messageCount of
        End \<Rightarrow> (messageCount, out, None)
      | Throw e \<Rightarrow> (messageCount, out, Some e)
      | Yield chunk \<Rightarrow>
          if messageCount + 1 > maxMessages then (messageCount + 1, out, None)
          else forwardChunks stream (messageCount + 1) (out @ forward chunk))"
  by pat_completeness auto
termination
  by (relation "measure (\<lambda>(stream, messageCount, out). maxMessages + 1 - messageCount)")
    (auto simp: maxMessages_def)

text \<open>The \<open>start\<close> callback of the \<open>ReadableStream\<close>: the connection frame, the loop,
  the completion frame; the \<open>catch\<close> enqueues the error frame; the \<open>finally\<close> closes.
  \<open>clock i\<close> is the \<open>i\<close>-th reading of \<open>new Date().toISOString()\<close>.\<close>

definition start :: "bool \<Rightarrow> (nat \<Rightarrow> string) \<Rightarrow> upstream \<Rightarrow> ctrl_op list" where
  "start development clock stream =
     (case forwardChunks stream 0 [Enqueue (connectionFrame (clock 0))] of
        (messageCount, out, None) \<Rightarrow>
          out @ [Enqueue (completionFrame (clock 1) messageCount)] @ [Close]
      | (messageCount, out, Some thrown) \<Rightarrow>
          out @ [Enqueue (errorFrame development thrown (clock 1))] @ [Close])"

section \<open>The chat route: the request handler\<close>

text \<open>The values \<open>POST\<close> throws and catches: the two error classes of the route with
  their status code, and any other thrown value.\<close>

datatype exn = ValidationError string nat | ChatError string nat | OtherError string

text \<open>\<open>await req.json()\<close> rejects or gives the parsed body.\<close>

datatype body_result = InvalidJson | Parsed json

text \<open>\<open>serverClient.client.runs.stream(threadId, assistantId, {input: {query}, ...})\<close>
  gives the upstream or throws (\<open>Some\<close> the message of an \<open>Error\<close>, \<open>None\<close> for
  another thrown value).\<close>

datatype open_result = Opened upstream | OpenFailed "string option"

type_synonym runs_stream = "string \<Rightarrow> string \<Rightarrow> string \<Rightarrow> open_result"

text \<open>The response: the 200 event stream, given by what its controller receives, or
  \<open>NextResponse.json\<close> with its status and the \<open>type\<close> and \<open>error\<close> of its body.\<close>

datatype response = EventStream "ctrl_op list" | JsonResponse nat string string

text \<open>\<open>validation.error!\<close>, and the string that a value which passed a validator is.\<close>

definition reason :: "validation \<Rightarrow> string" where
  "reason v = (case error v of Some e \<Rightarrow> e | None \<Rightarrow> [])"

fun string_of :: "jsval \<Rightarrow> string" where
  "string_of (Some (JString s)) = s"
| "string_of v = []"

text \<open>An environment variable is \<open>None\<close> when it is not set; \<open>!process.env.X\<close> holds
  when it is not set or empty.\<close>

definition unset :: "string option \<Rightarrow> bool" where
  "unset v = (v = None \<or> v = Some [])"

definition env_value :: "string option \<Rightarrow> string" where
  "env_value v = (case v of Some s \<Rightarrow> s | None \<Rightarrow> [])"

text \<open>The translation of a failure to open the upstream stream.\<close>

definition sessionNotFound :: "string option \<Rightarrow> bool" where
  "sessionNotFound thrown =
     (case thrown of Some m \<Rightarrow> str_includes m ''thread not found'' | None \<Rightarrow> False)"

definition rateOrQuota :: "string option \<Rightarrow> bool" where
  "rateOrQuota thrown =
     (case thrown of
        Some m \<Rightarrow> str_includes m ''quota'' \<or> str_includes m ''rate limit''
      | None \<Rightarrow> False)"

definition openFailure :: "string option \<Rightarrow> exn" where
  "openFailure thrown =
     (if sessionNotFound thrown
        then ChatError ''Chat session not found. Please start a new conversation.'' 404
      else if rateOrQuota thrown
        then ChatError
          ''Service temporarily unavailable due to high demand. Please try again in a few minutes.''
          429
      else ChatError ''Unable to start chat session. Please try again.'' 503)"

text \<open>
  The \<open>try\<close> block of \<open>POST\<close>. \<open>assistantId\<close> is the environment variable
  \<open>LANGGRAPH_RETRIEVAL_ASSISTANT_ID\<close> (\<open>None\<close> when unset); \<open>serverClient\<close> is what
  \<open>createServerClient()\<close> gives (\<open>None\<close> when it throws), reduced to its
  \<open>runs.stream\<close>. Destructuring a \<open>null\<close> body throws a \<open>TypeError\<close>.\<close>

definition POST_try ::
  "string option \<Rightarrow> runs_stream option \<Rightarrow> bool \<Rightarrow> (nat \<Rightarrow> string) \<Rightarrow> body_result
     \<Rightarrow> exn + ctrl_op list" where
  "POST_try assistantId serverClient development clock body =
     (case body of
        InvalidJson \<Rightarrow>
          Inl (ValidationError
            ''Invalid request format. Please ensure you are sending valid JSON.'' 400)
      | Parsed b \<Rightarrow>
          if b = JNull then Inl (OtherError ''TypeError'')
          else
            let message = get_prop b ''message''; threadId = get_prop b ''threadId'' in
            if \<not> valid (validateMessage message)
              then Inl (ValidationError (reason (validateMessage message)) 400)
            else if \<not> valid (validateThreadId threadId)
              then Inl (ValidationError (reason (validateThreadId threadId)) 400)
            else if unset assistantId
              then Inl (ChatError
                ''Service configuration error: Chat service is not properly configured'' 503)
            else case serverClient of
              None \<Rightarrow>
                Inl (ChatError ''Failed to initialize chat service. Please try again later.'' 503)
            | Some stream \<Rightarrow>
                (case stream (string_of threadId) (env_value assistantId)
                        (trim (string_of message)) of
                   OpenFailed thrown \<Rightarrow> Inl (openFailure thrown)
                 | Opened upstream \<Rightarrow> Inr (start development clock upstream)))"

text \<open>A body that passes both validators.\<close>

definition validInput :: "json \<Rightarrow> bool" where
  "validInput b =
     (valid (validateMessage (get_prop b ''message'')) \<and>
      valid (validateThreadId (get_prop b ''threadId'')))"

text \<open>The \<open>catch\<close> block of \<open>POST\<close>.\<close>

fun respond :: "exn \<Rightarrow> response" where
  "respond (ValidationError m statusCode) = JsonResponse statusCode ''validation_error'' m"
| "respond (ChatError m statusCode) = JsonResponse statusCode ''chat_error'' m"
| "respond (OtherError m) =
     JsonResponse 500 ''server_error''
       ''An unexpected error occurred while processing your request.''"

definition POST ::
  "string option \<Rightarrow> runs_stream option \<Rightarrow> bool \<Rightarrow> (nat \<Rightarrow> string) \<Rightarrow> body_result
     \<Rightarrow> response" where
  "POST assistantId serverClient development clock body =
     (case POST_try assistantId serverClient development clock body of
        Inl e \<Rightarrow> respond e
      | Inr trace \<Rightarrow> EventStream trace)"

section \<open>The built-in JSON.parse\<close>

text \<open>
  \<open>JSON.parse\<close> is no code of the repository; the event parser below takes it as a
  parameter. \<open>JSON_parse\<close> is a recursive-descent reading of the JSON grammar (objects,
  arrays, strings with their escapes, numbers kept as lexemes, the three literals,
  whitespace) for running the parser on concrete frames. A later duplicate of a key
  replaces the earlier value. The strings of this development are of code units below
  256, and so are the texts \<open>JSON_parse\<close> stands for \<open>JSON.parse\<close> on: a \<open>\u\<close>
  escape of a higher code unit, which \<open>JSON.parse\<close> reads, denotes no string here, and
  \<open>JSON_parse\<close> gives no value for a text that has one. The properties of the event
  parser below are stated for every parser; \<open>JSON_parse\<close> is run on the example frames
  only, which have no escape.
  The recursion is on a fuel; \<open>JSON_parse\<close> gives it twice the length of the text and
  one, which is enough: a text that some fuel parses is parsed with it
  (\<open>JSON_parse_fuel\<close> below).
\<close>

text \<open>The whitespace of JSON: space, tab, line feed, carriage return.\<close>

definition json_ws :: "char \<Rightarrow> bool" where
  "json_ws c = (c \<in> set [CHR 0x20, CHR 0x09, CHR 0x0A, CHR 0x0D])"

definition skip_ws :: "string \<Rightarrow> string" where
  "skip_ws s = dropWhile json_ws s"

definition is_digit :: "char \<Rightarrow> bool" where
  "is_digit c = (c \<in> set ''0123456789'')"

text \<open>The escapes of a JSON string.\<close>

definition hex_value :: "char \<Rightarrow> nat option" where
  "hex_value c = map_of (zip ''0123456789abcdefABCDEF''
     [0, 1, 2, 3, 4, 5, 6, 7, 8, 9, 10, 11, 12, 13, 14, 15, 10, 11, 12, 13, 14, 15]) c"

definition unescape :: "char \<Rightarrow> char option" where
  "unescape e = map_of
     [(CHR 0x22, CHR 0x22), (CHR 0x5C, CHR 0x5C), (CHR ''/'', CHR ''/''),
      (CHR ''b'', CHR 0x08), (CHR ''f'', CHR 0x0C), (CHR ''n'', CHR 0x0A),
      (CHR ''r'', CHR 0x0D), (CHR ''t'', CHR 0x09)] e"

definition unicode_escape :: "string \<Rightarrow> char option" where
  "unicode_escape hs =
     (case map hex_value hs of
        [Some a, Some b, Some c, Some d] \<Rightarrow>
          (if a = 0 \<and> b = 0 then Some (char_of (16 * c + d)) else None)
      | _ \<Rightarrow> None)"

text \<open>The characters of a string after its opening quote, up to the closing quote: the
  string and the rest of the text. A control character below 0x20 is not allowed.\<close>

fun parse_chars :: "string \<Rightarrow> string \<Rightarrow> (string \<times> string) option" where
  "parse_chars [] acc = None"
| "parse_chars (c # cs) acc =
     (if c = CHR 0x22 then Some (rev acc, cs)
      else if c = CHR 0x5C then
        (case cs of
           [] \<Rightarrow> None
         | e # r \<Rightarrow>
             if e = CHR ''u'' then
               (case unicode_escape (take 4 r) of
                  Some ch \<Rightarrow> parse_chars (drop 4 r) (ch # acc)
                | None \<Rightarrow> None)
             else
               (case unescape e of
                  Some ch \<Rightarrow> parse_chars r (ch # acc)
                | None \<Rightarrow> None))
      else if (of_char c :: nat) < 32 then None
      else parse_chars cs (c # acc))"

text \<open>A number: an optional minus, \<open>0\<close> or digits, an optional fraction, an optional
  exponent. The lexeme and the rest of the text.\<close>

definition parse_digits :: "string \<Rightarrow> (string \<times> string) option" where
  "parse_digits s =
     (let ds = takeWhile is_digit s in
      if ds = [] then None else Some (ds, dropWhile is_digit s))"

definition parse_number :: "string \<Rightarrow> (string \<times> string) option" where
  "parse_number s =
     (let sign = (if starts_with s ''-'' then ''-'' else []);
          s1 = drop (length sign) s in
      case (if starts_with s1 ''0'' then Some (''0'', drop 1 s1) else parse_digits s1) of
        None \<Rightarrow> None
      | Some (int_part, s2) \<Rightarrow>
          (case (if starts_with s2 ''.''
                 then map_option (\<lambda>(ds, r). (''.'' @ ds, r)) (parse_digits (drop 1 s2))
                 else Some ([], s2)) of
             None \<Rightarrow> None
           | Some (frac, s3) \<Rightarrow>
               (case (if starts_with s3 ''e'' \<or> starts_with s3 ''E'' then
                        (let s4 = drop 1 s3;
                             esign = (if starts_with s4 ''+'' \<or> starts_with s4 ''-''
                                      then take 1 s4 else [])
                         in map_option (\<lambda>(ds, r). (take 1 s3 @ esign @ ds, r))
                              (parse_digits (drop (length esign) s4)))
                      else Some ([], s3)) of
                  None \<Rightarrow> None
                | Some (ex, s5) \<Rightarrow> Some (sign @ int_part @ frac @ ex, s5))))"

text \<open>Setting a member of an object: the value of a key that is there is replaced.\<close>

fun set_member :: "string \<Rightarrow> json \<Rightarrow> (string \<times> json) list \<Rightarrow> (string \<times> json) list" where
  "set_member k v [] = [(k, v)]"
| "set_member k v ((k', v') # kvs) =
     (if k = k' then (k, v) # kvs else (k', v') # set_member k v kvs)"

text \<open>A value, the elements of an array after \<open>[\<close> and the members of an object after
  \<open>{\<close>, each on a text whose leading whitespace has been skipped.\<close>

fun parse_value :: "nat \<Rightarrow> string \<Rightarrow> (json \<times> string) option"
  and parse_elements :: "nat \<Rightarrow> string \<Rightarrow> json list \<Rightarrow> (json \<times> string) option"
  and parse_members :: "nat \<Rightarrow> string \<Rightarrow> (string \<times> json) list \<Rightarrow> (json \<times> string) option"
where
  "parse_value 0 s = None"
| "parse_value (Suc n) s =
     (if starts_with s ''null'' then Some (JNull, drop 4 s)
      else if starts_with s ''true'' then Some (JBool True, drop 4 s)
      else if starts_with s ''false'' then Some (JBool False, drop 5 s)
      else if starts_with s [CHR 0x22] then
        map_option (\<lambda>(str, rest). (JString str, rest)) (parse_chars (drop 1 s) [])
      else if starts_with s ''['' then
        (let r = skip_ws (drop 1 s) in
         if starts_with r '']'' then Some (JArray [], drop 1 r) else parse_elements n r [])
      else if starts_with s ''{'' then
        (let r = skip_ws (drop 1 s) in
         if starts_with r ''}'' then Some (JObject [], drop 1 r) else parse_members n r [])
      else map_option (\<lambda>(lexeme, rest). (JNumber lexeme, rest)) (parse_number s))"
| "parse_elements 0 s acc = None"
| "parse_elements (Suc n) s acc =
     (case parse_value n s of
        None \<Rightarrow> None
      | Some (v, rest) \<Rightarrow>
          (let r = skip_ws rest in
           if starts_with r '','' then parse_elements n (skip_ws (drop 1 r)) (acc @ [v])
           else if starts_with r '']'' then Some (JArray (acc @ [v]), drop 1 r)
           else None))"
| "parse_members 0 s acc = None"
| "parse_members (Suc n) s acc =
     (if \<not> starts_with s [CHR 0x22] then None
      else case parse_chars (drop 1 s) [] of
        None \<Rightarrow> None
      | Some (k, rest) \<Rightarrow>
          (let r = skip_ws rest in
           if \<not> starts_with r '':'' then None
           else case parse_value n (skip_ws (drop 1 r)) of
             None \<Rightarrow> None
           | Some (v, rest') \<Rightarrow>
               (let r' = skip_ws rest' in
                if starts_with r' '','' then parse_members n (skip_ws (drop 1 r')) (set_member k v acc)
                else if starts_with r' ''}'' then Some (JObject (set_member k v acc), drop 1 r')
                else None)))"

text \<open>The whole text is one value between whitespace; \<open>None\<close> is the \<open>SyntaxError\<close>.\<close>

definition JSON_parse :: "string \<Rightarrow> json option" where
  "JSON_parse text =
     (case parse_value (Suc (2 * length text)) (skip_ws text) of
        Some (v, rest) \<Rightarrow> if skip_ws rest = [] then Some v else None
      | None \<Rightarrow> None)"

section \<open>The chat page: the event parser\<close>

text \<open>\<open>s.split(sep)\<close> for a one-character separator: the pieces between the
  separators, empty pieces included.\<close>

fun split_on :: "char \<Rightarrow> string \<Rightarrow> string list" where
  "split_on sep [] = [[]]"
| "split_on sep (c # cs) =
     (if c = sep then [] # split_on sep cs
      else (case split_on sep cs of
              [] \<Rightarrow> [[c]]
            | piece # pieces \<Rightarrow> (c # piece) # pieces))"

text \<open>\<open>chunkStr.split('\n').filter(Boolean)\<close>: the non-empty lines of one read.\<close>

definition sse_lines :: "string \<Rightarrow> string list" where
  "sse_lines chunkStr = filter (\<lambda>line. line \<noteq> []) (split_on CHR 0x0A chunkStr)"

text \<open>One line of a read: a line that does not start with \<open>data: \<close> is skipped; the
  rest of the line is given to \<open>JSON.parse\<close> (the parameter \<open>parse\<close>, \<open>None\<close> when
  it throws), and a line on which it throws is logged and skipped.\<close>

definition parseLine :: "(string \<Rightarrow> json option) \<Rightarrow> string \<Rightarrow> json option" where
  "parseLine parse line =
     (if \<not> starts_with line ''data: '' then None
      else parse (drop (length ''data: '') line))"

text \<open>The events parsed from one read, and from successive reads. The loop keeps nothing
  between two reads: \<open>chunkStr\<close> and \<open>lines\<close> are local to one iteration.\<close>

definition parseChunk :: "(string \<Rightarrow> json option) \<Rightarrow> string \<Rightarrow> json list" where
  "parseChunk parse chunkStr = List.map_filter (parseLine parse) (sse_lines chunkStr)"

definition parseReads :: "(string \<Rightarrow> json option) \<Rightarrow> string list \<Rightarrow> json list" where
  "parseReads parse reads = concat (map (parseChunk parse) reads)"

section \<open>The chat page: the conversation state and its reducer\<close>

text \<open>
  The state of the page that \<open>handleSubmit\<close> reads and writes: the \<open>useState\<close> values
  \<open>messages\<close>, \<open>input\<close> and \<open>isLoading\<close>, the ref \<open>lastRetrievedDocsRef\<close>, the
  updates that React holds for the component, and the lines written to the console. A
  retrieved document is kept as the JSON value it arrived as.

  A call of a \<open>useState\<close> setter does not change the state: React keeps the update in a
  queue and runs the queue, in the order of the calls, when it renders the component. An
  updater function given to \<open>setMessages\<close> therefore reads \<open>lastRetrievedDocsRef.current\<close>
  and \<open>new Date()\<close> when React runs it, not when the setter is called; the values of the
  local variables it mentions (\<open>partialContent\<close>, \<open>userMessage\<close>, \<open>timestamp\<close>) are
  those of the call. \<open>dates\<close> counts the \<open>new Date()\<close> made so far; the \<open>i\<close>-th of them reads
  the time \<open>clock i\<close>, where the clock is a parameter. Toasts and the abort controller
  are not part of the state.
\<close>

datatype role = User | Assistant

record message =
  role :: role
  content :: string
  sources :: "json list option"
  timestamp :: "nat option"

text \<open>The updates that \<open>handleSubmit\<close> hands to React: the updater of the submission
  (\<open>prev => [...prev, user, assistant]\<close>, the two messages built at the call), the updater
  of the \<open>messages/partial\<close> branch with its \<open>partialContent\<close>, and the new values of
  \<open>setInput\<close> and \<open>setIsLoading\<close>.\<close>

datatype updater =
    Append "message list"
  | SetPartial string
  | SetInput string
  | SetIsLoading bool

text \<open>\<open>console.log('Unknown SSE event:', event, data)\<close>.\<close>

datatype console_line = UnknownEvent jsval jsval

record page =
  messages :: "message list"
  input :: string
  isLoading :: bool
  lastRetrievedDocs :: "json list"
  dates :: nat
  queue :: "updater list"
  console :: "console_line list"

text \<open>\<open>data[data.length - 1]\<close>, \<open>x?.k\<close> and \<open>x ?? d\<close>.\<close>

definition lastOf :: "json list \<Rightarrow> jsval" where
  "lastOf xs = (if xs = [] then None else Some (last xs))"

fun opt_prop :: "jsval \<Rightarrow> string \<Rightarrow> jsval" where
  "opt_prop None k = None"
| "opt_prop (Some JNull) k = None"
| "opt_prop (Some v) k = get_prop v k"

fun nullish_or :: "jsval \<Rightarrow> json \<Rightarrow> json" where
  "nullish_or None d = d"
| "nullish_or (Some JNull) d = d"
| "nullish_or (Some v) d = v"

text \<open>The body of the updater of the \<open>messages/partial\<close> branch, run by React on the
  state \<open>st\<close>: when the last message is the assistant's, its content becomes
  \<open>partialContent\<close>, its sources what the ref holds now, its timestamp the time now.\<close>

definition setPartial :: "(nat \<Rightarrow> nat) \<Rightarrow> string \<Rightarrow> page \<Rightarrow> page" where
  "setPartial clock partialContent st =
     (let newArr = messages st in
      if newArr \<noteq> [] \<and> role (last newArr) = Assistant then
        st\<lparr>messages := butlast newArr @
              [(last newArr)\<lparr>content := partialContent,
                              sources := Some (lastRetrievedDocs st),
                              timestamp := Some (clock (dates st))\<rparr>],
           dates := dates st + 1\<rparr>
      else st)"

text \<open>React runs one queued update, and a render runs the whole queue in its order.\<close>

fun runUpdater :: "(nat \<Rightarrow> nat) \<Rightarrow> updater \<Rightarrow> page \<Rightarrow> page" where
  "runUpdater clock (Append new) st = st\<lparr>messages := messages st @ new\<rparr>"
| "runUpdater clock (SetPartial partialContent) st = setPartial clock partialContent st"
| "runUpdater clock (SetInput v) st = st\<lparr>input := v\<rparr>"
| "runUpdater clock (SetIsLoading v) st = st\<lparr>isLoading := v\<rparr>"

definition render :: "(nat \<Rightarrow> nat) \<Rightarrow> page \<Rightarrow> page" where
  "render clock st = fold (runUpdater clock) (queue st) (st\<lparr>queue := []\<rparr>)"

text \<open>A call of a setter: the update joins the queue.\<close>

definition enqueue :: "updater \<Rightarrow> page \<Rightarrow> page" where
  "enqueue u st = st\<lparr>queue := queue st @ [u]\<rparr>"

text \<open>The test of the \<open>updates\<close> branch, \<open>data && typeof data === 'object' &&
  'retrieveDocuments' in data && data.retrieveDocuments &&
  Array.isArray(data.retrieveDocuments.documents)\<close>, giving the documents when it holds.\<close>

definition retrievedDocs :: "jsval \<Rightarrow> json list option" where
  "retrievedDocs data =
     (case data of
        Some (JObject kvs) \<Rightarrow>
          (case map_of kvs ''retrieveDocuments'' of
             None \<Rightarrow> None
           | Some node \<Rightarrow>
               if truthy (Some node) then
                 (case get_prop node ''documents'' of
                    Some (JArray documents) \<Rightarrow> Some documents
                  | _ \<Rightarrow> None)
               else None)
      | _ \<Rightarrow> None)"

text \<open>
  The reducer: the body of the loop over the lines from \<open>const { event, data } = sseEvent\<close>
  on. Destructuring \<open>null\<close> throws a \<open>TypeError\<close>; every other JSON value can be
  destructured. The \<open>messages/partial\<close> branch calls \<open>setMessages\<close> with its updater, the
  \<open>updates\<close> branch assigns the ref at once, and the last branch logs the unknown event.
\<close>

definition applyEvent :: "json \<Rightarrow> page \<Rightarrow> exn + page" where
  "applyEvent sseEvent st =
     (if sseEvent = JNull then Inl (OtherError ''TypeError'')
      else
        let event = get_prop sseEvent ''event''; data = get_prop sseEvent ''data'' in
        if event = Some (JString ''messages/partial'') then
          (case data of
             Some (JArray xs) \<Rightarrow>
               (let lastObj = lastOf xs in
                if opt_prop lastObj ''type'' = Some (JString ''ai'') then
                  (case nullish_or (opt_prop lastObj ''content'') (JString []) of
                     JString partialContent \<Rightarrow>
                       if \<not> starts_with partialContent ''{''
                       then Inr (enqueue (SetPartial partialContent) st)
                       else Inr st
                   | _ \<Rightarrow> Inr st)
                else Inr st)
           | _ \<Rightarrow> Inr st)
        else if event = Some (JString ''updates'') \<and> truthy data then
          (case retrievedDocs data of
             Some documents \<Rightarrow> Inr (st\<lparr>lastRetrievedDocs := documents\<rparr>)
           | None \<Rightarrow> Inr (st\<lparr>lastRetrievedDocs := []\<rparr>))
        else Inr (st\<lparr>console := console st @ [UnknownEvent event data]\<rparr>))"

text \<open>
  What happens to the page during a request is a sequence of steps: the loop handles an
  event, or React renders the component. Where the renders fall among the events is up to
  React. A thrown value ends the sequence, with the state reached.
\<close>

datatype step = Event json | Render

fun applySteps :: "(nat \<Rightarrow> nat) \<Rightarrow> step list \<Rightarrow> page \<Rightarrow> page \<times> exn option" where
  "applySteps clock [] st = (st, None)"
| "applySteps clock (Render # rest) st = applySteps clock rest (render clock st)"
| "applySteps clock (Event sseEvent # rest) st =
     (case applyEvent sseEvent st of
        Inl e \<Rightarrow> (st, Some e)
      | Inr st' \<Rightarrow> applySteps clock rest st')"

text \<open>The submission, before the request is sent: the time is read, the updater that
  appends the trimmed user message and an empty assistant message, both with that time,
  is handed to React with the cleared input and the loading flag, and the ref is
  emptied.\<close>

definition submit :: "(nat \<Rightarrow> nat) \<Rightarrow> string \<Rightarrow> page \<Rightarrow> page" where
  "submit clock userMessage st =
     (let stamp = Some (clock (dates st)) in
      st\<lparr>queue := queue st @
            [Append
               [\<lparr>role = User, content = userMessage, sources = None, timestamp = stamp\<rparr>,
                \<lparr>role = Assistant, content = [], sources = None, timestamp = stamp\<rparr>],
             SetInput [], SetIsLoading True],
         lastRetrievedDocs := [],
         dates := dates st + 1\<rparr>)"

text \<open>The text that the \<open>catch\<close> block of \<open>handleSubmit\<close> gives the last message when
  the \<open>try\<close> block has thrown.\<close>

definition failureText :: string where
  "failureText = ''Sorry, there was an error processing your message. Please try again.''"

section \<open>Notions for stating the properties of the reducer\<close>

text \<open>The conversation ends with an assistant message: so it does during a request, once
  React has run the updater of the submission (\<open>submit_trailing\<close> below).\<close>

definition trailingAssistant :: "page \<Rightarrow> bool" where
  "trailingAssistant st = (messages st \<noteq> [] \<and> role (last (messages st)) = Assistant)"

text \<open>The text a partial-message event carries: the event is \<open>messages/partial\<close>, its
  data a list whose last element has type \<open>ai\<close>, and the content of that element
  (the empty string when absent) is a string.\<close>

definition partialText :: "json \<Rightarrow> string option" where
  "partialText sseEvent =
     (if get_prop sseEvent ''event'' = Some (JString ''messages/partial'') then
        (case get_prop sseEvent ''data'' of
           Some (JArray xs) \<Rightarrow>
             if opt_prop (lastOf xs) ''type'' = Some (JString ''ai'') then
               (case nullish_or (opt_prop (lastOf xs) ''content'') (JString []) of
                  JString text \<Rightarrow> Some text
                | _ \<Rightarrow> None)
             else None
         | _ \<Rightarrow> None)
      else None)"

text \<open>The roles that an update appends to the conversation.\<close>

fun appendedRoles :: "updater \<Rightarrow> role list" where
  "appendedRoles (Append new) = map role new"
| "appendedRoles u = []"

text \<open>A state without the timestamps of its messages.\<close>

definition untimed :: "page \<Rightarrow> page" where
  "untimed st = st\<lparr>messages := map (\<lambda>m. m\<lparr>timestamp := None\<rparr>) (messages st)\<rparr>"

text \<open>The reducer has a branch for the event: it is a \<open>messages/partial\<close> event, or an
  \<open>updates\<close> event with truthy data.\<close>

definition handled :: "json \<Rightarrow> bool" where
  "handled sseEvent =
     (get_prop sseEvent ''event'' = Some (JString ''messages/partial'')
      \<or> (get_prop sseEvent ''event'' = Some (JString ''updates'')
          \<and> truthy (get_prop sseEvent ''data'')))"

section \<open>Example inputs\<close>

definition frame_head :: string where
  \<open>frame_head = ''data: {"event":"messages/par''\<close>

definition frame_tail :: string where
  \<open>frame_tail = ''tial","data":[{"type":"ai","content":"X is"}]}\<newline>\<newline>''\<close>

definition partial_X_is :: json where
  "partial_X_is = JObject
     [(''event'', JString ''messages/partial''),
      (''data'', JArray [JObject [(''type'', JString ''ai''), (''content'', JString ''X is'')]])]"

definition frame_one :: string where
  \<open>frame_one = ''data: {"event":"updates","data":null}\<newline>\<newline>''\<close>

definition body0 :: json where
  "body0 = JObject [(''message'', JString ''What is X?''), (''threadId'', JString ''t1'')]"

definition stream0 :: upstream where
  "stream0 = (\<lambda>i. if i = 0 then Yield (Forwardable (JObject [(''event'', JString ''updates'')]))
                   else Throw (Some ''boom''))"

definition clock0 :: "nat \<Rightarrow> string" where
  "clock0 = (\<lambda>i. if i = 0 then ''t0'' else ''t1'')"

definition page1 :: page where
  "page1 = \<lparr>messages =
       [\<lparr>role = User, content = ''What is X?'', sources = None, timestamp = Some 0\<rparr>,
        \<lparr>role = Assistant, content = [], sources = None, timestamp = Some 0\<rparr>],
     input = [], isLoading = True, lastRetrievedDocs = [], dates = 1, queue = [],
     console = []\<rparr>"

definition page0 :: page where
  "page0 = \<lparr>messages = [], input = ''What is X?'', isLoading = False,
     lastRetrievedDocs = [], dates = 0, queue = [], console = []\<rparr>"

definition doc1 :: json where
  "doc1 = JObject [(''pageContent'', JString ''X is a concept.'')]"

definition update_doc1 :: json where
  "update_doc1 = JObject
     [(''event'', JString ''updates''),
      (''data'', JObject [(''retrieveDocuments'', JObject [(''documents'', JArray [doc1])])])]"

definition update_null :: json where
  "update_null = JObject [(''event'', JString ''updates''), (''data'', JNull)]"

definition update_malformed :: json where
  "update_malformed = JObject
     [(''event'', JString ''updates''),
      (''data'', JObject [(''retrieveDocuments'', JObject [(''documents'', JString ''none'')])])]"

definition partial_concept :: json where
  "partial_concept = JObject
     [(''event'', JString ''messages/partial''),
      (''data'', JArray [JObject [(''type'', JString ''ai''), (''content'', JString ''X is a concept.'')]])]"

definition clock_id :: "nat \<Rightarrow> nat" where
  "clock_id i = i"

definition clock_1 :: "nat \<Rightarrow> nat" where
  "clock_1 i = 1"

definition clock_2 :: "nat \<Rightarrow> nat" where
  "clock_2 i = 2"

section \<open>Properties of the validators\<close>

lemma length_trim_le: "length (trim s) \<le> length s"
proof -
  have "length (trim s) \<le> length (dropWhile is_space s)"
    unfolding trim_def using length_dropWhile_le [of is_space "rev (dropWhile is_space s)"]
    by simp
  also have "\<dots> \<le> length s"
    by (rule length_dropWhile_le)
  finally show ?thesis .
qed

lemma trim_all_space: "(\<forall>c \<in> set s. is_space c) \<Longrightarrow> trim s = []"
proof -
  assume "\<forall>c \<in> set s. is_space c"
  then have "dropWhile is_space s = []"
    by simp
  then show ?thesis
    unfolding trim_def by (simp only: rev.simps dropWhile.simps)
qed

lemma dropWhile_replicate_space:
  "is_space c \<Longrightarrow> dropWhile is_space (replicate n c @ s) = dropWhile is_space s"
  by (induction n) simp_all

lemma trim_padded_left: "is_space c \<Longrightarrow> trim (replicate n c @ s) = trim s"
  by (simp add: trim_def dropWhile_replicate_space)

lemma trim_hi: "trim ''hi'' = ''hi''"
  by (simp add: trim_def is_space_def)

lemma validateMessage_string:
  "validateMessage (Some (JString m)) =
     (if m = [] then \<lparr>valid = False, error = Some ''Message is required''\<rparr>
      else if trim m = [] then \<lparr>valid = False, error = Some ''Message cannot be empty''\<rparr>
      else if length (trim m) > 10000
        then \<lparr>valid = False,
              error = Some ''Message is too long. Maximum 10,000 characters allowed.''\<rparr>
      else \<lparr>valid = True, error = None\<rparr>)"
  by (simp add: validateMessage_def invalid_def passed_def Let_def)

lemma validateThreadId_string:
  "validateThreadId (Some (JString t)) =
     (if t = [] then \<lparr>valid = False, error = Some ''Thread ID is required''\<rparr>
      else if length t > 100 then \<lparr>valid = False, error = Some ''Invalid Thread ID format''\<rparr>
      else \<lparr>valid = True, error = None\<rparr>)"
  by (cases t) (simp_all add: validateThreadId_def invalid_def passed_def)

lemma trim_Nil: "trim [] = []"
  by (simp add: trim_def)

text \<open>
  Claim C7, as the code has it. The validators return \<open>{valid: true}\<close> for every pair of a
  string message that is non-empty after trimming and has at most 10,000 characters after
  trimming (so for every such message of at most 10,000 characters, \<open>length_trim_le\<close>) and
  a thread id of 1 to 100 characters. They return \<open>{valid: false, error}\<close> with the reason
  for every message that is empty after trimming, for every message with more than 10,000
  characters after trimming, and for every empty or oversized thread id. The length that
  makes a message oversized is the length after trimming.
\<close>

theorem validators_pass_and_fail:
  "(trim m \<noteq> [] \<and> length (trim m) \<le> 10000 \<and> t \<noteq> [] \<and> length t \<le> 100 \<longrightarrow>
      validateMessage (Some (JString m)) = \<lparr>valid = True, error = None\<rparr> \<and>
      validateThreadId (Some (JString t)) = \<lparr>valid = True, error = None\<rparr>)
   \<and> (trim m = [] \<longrightarrow>
      validateMessage (Some (JString m)) =
        \<lparr>valid = False,
         error = Some (if m = [] then ''Message is required'' else ''Message cannot be empty'')\<rparr>)
   \<and> (length (trim m) > 10000 \<longrightarrow>
      validateMessage (Some (JString m)) =
        \<lparr>valid = False,
         error = Some ''Message is too long. Maximum 10,000 characters allowed.''\<rparr>)
   \<and> (t = [] \<longrightarrow>
      validateThreadId (Some (JString t)) =
        \<lparr>valid = False, error = Some ''Thread ID is required''\<rparr>)
   \<and> (length t > 100 \<longrightarrow>
      validateThreadId (Some (JString t)) =
        \<lparr>valid = False, error = Some ''Invalid Thread ID format''\<rparr>)"
proof (intro conjI impI)
  assume ok: "trim m \<noteq> [] \<and> length (trim m) \<le> 10000 \<and> t \<noteq> [] \<and> length t \<le> 100"
  then have "m \<noteq> []"
    by (auto simp: trim_Nil)
  with ok show "validateMessage (Some (JString m)) = \<lparr>valid = True, error = None\<rparr>"
    by (simp add: validateMessage_string)
  from ok show "validateThreadId (Some (JString t)) = \<lparr>valid = True, error = None\<rparr>"
    by (simp add: validateThreadId_string)
next
  assume "trim m = []"
  then show "validateMessage (Some (JString m)) =
        \<lparr>valid = False,
         error = Some (if m = [] then ''Message is required'' else ''Message cannot be empty'')\<rparr>"
    by (simp add: validateMessage_string)
next
  assume long: "length (trim m) > 10000"
  then have "trim m \<noteq> []"
    by auto
  moreover from this have "m \<noteq> []"
    by (auto simp: trim_Nil)
  ultimately show "validateMessage (Some (JString m)) =
        \<lparr>valid = False,
         error = Some ''Message is too long. Maximum 10,000 characters allowed.''\<rparr>"
    using long by (simp add: validateMessage_string)
next
  assume "t = []"
  then show "validateThreadId (Some (JString t)) =
        \<lparr>valid = False, error = Some ''Thread ID is required''\<rparr>"
    by (simp add: validateThreadId_string)
next
  assume long: "length t > 100"
  then have "t \<noteq> []"
    by auto
  with long show "validateThreadId (Some (JString t)) =
        \<lparr>valid = False, error = Some ''Invalid Thread ID format''\<rparr>"
    by (simp add: validateThreadId_string)
qed

text \<open>
  Claim C7, as the specification words it, fails: a message of 10,004 characters, two
  letters after 10,002 spaces, is oversized and the validator returns \<open>{valid: true}\<close>
  for it.
\<close>

theorem oversized_message_passes:
  "length (replicate 10002 CHR '' '' @ ''ok'') = 10004
   \<and> validateMessage (Some (JString (replicate 10002 CHR '' '' @ ''ok'')))
       = \<lparr>valid = True, error = None\<rparr>"
proof -
  have "trim (replicate 10002 CHR '' '' @ ''ok'') = trim ''ok''"
    by (rule trim_padded_left) (simp add: is_space_def)
  also have "\<dots> = ''ok''"
    by (simp add: trim_def is_space_def)
  finally have "trim (replicate 10002 CHR '' '' @ ''ok'') = ''ok''" .
  then show ?thesis
    by (simp add: validateMessage_string)
qed

theorem validators_pass_and_fail_witness:
  "validateMessage (Some (JString ''hi'')) = \<lparr>valid = True, error = None\<rparr>
   \<and> validateThreadId (Some (JString ''t1'')) = \<lparr>valid = True, error = None\<rparr>
   \<and> validateMessage (Some (JString (replicate 5 CHR '' '')))
       = \<lparr>valid = False, error = Some ''Message cannot be empty''\<rparr>
   \<and> validateMessage (Some (JString (replicate 10001 CHR ''x'')))
       = \<lparr>valid = False,
          error = Some ''Message is too long. Maximum 10,000 characters allowed.''\<rparr>
   \<and> validateThreadId (Some (JString []))
       = \<lparr>valid = False, error = Some ''Thread ID is required''\<rparr>
   \<and> validateThreadId (Some (JString (replicate 101 CHR ''x'')))
       = \<lparr>valid = False, error = Some ''Invalid Thread ID format''\<rparr>"
proof -
  have sp: "trim (replicate 5 CHR '' '') = []"
    by (rule trim_all_space) (simp add: is_space_def)
  have xs: "trim (replicate 10001 CHR ''x'') = replicate 10001 CHR ''x''"
    by (simp add: trim_def is_space_def dropWhile_eq_self_iff
        hd_replicate last_replicate hd_rev)
  have ok: "trim ''hi'' \<noteq> [] \<and> length (trim ''hi'') \<le> 10000 \<and> ''t1'' \<noteq> [] \<and> length ''t1'' \<le> 100"
    by (simp add: trim_hi)
  have long: "length (trim (replicate 10001 CHR ''x'')) > 10000"
    by (simp add: xs)
  have ne: "replicate 5 CHR '' '' \<noteq> []"
    by simp
  show ?thesis
    using validators_pass_and_fail [of "''hi''" "''t1''"]
      validators_pass_and_fail [of "replicate 5 CHR '' ''" "[]"]
      validators_pass_and_fail [of "replicate 10001 CHR ''x''" "replicate 101 CHR ''x''"]
      ok sp long ne
    by simp
qed

text \<open>
  Claim C10. The 10,000-character limit is applied to the trimmed message: a string whose
  trimmed length is between 1 and 10,000 gets \<open>{valid: true}\<close>, whatever the length of the
  raw string, and a string of whitespace only, of any length, gets \<open>{valid: false}\<close> with
  the reason of an empty message.
\<close>

theorem validateMessage_limit_on_trimmed:
  "(1 \<le> length (trim m) \<and> length (trim m) \<le> 10000 \<longrightarrow>
      validateMessage (Some (JString m)) = \<lparr>valid = True, error = None\<rparr>)
   \<and> ((\<forall>c \<in> set m. is_space c) \<longrightarrow>
      validateMessage (Some (JString m)) =
        \<lparr>valid = False,
         error = Some (if m = [] then ''Message is required'' else ''Message cannot be empty'')\<rparr>)"
proof (intro conjI impI)
  assume ok: "1 \<le> length (trim m) \<and> length (trim m) \<le> 10000"
  then have "trim m \<noteq> []"
    by auto
  moreover from this have "m \<noteq> []"
    by (auto simp: trim_Nil)
  ultimately show "validateMessage (Some (JString m)) = \<lparr>valid = True, error = None\<rparr>"
    using ok by (simp add: validateMessage_string)
next
  assume "\<forall>c \<in> set m. is_space c"
  then have "trim m = []"
    by (rule trim_all_space)
  then show "validateMessage (Some (JString m)) =
        \<lparr>valid = False,
         error = Some (if m = [] then ''Message is required'' else ''Message cannot be empty'')\<rparr>"
    by (simp add: validateMessage_string)
qed

theorem validateMessage_limit_on_trimmed_witness:
  "length (replicate 10001 CHR '' '' @ ''hi'') > 10000
   \<and> validateMessage (Some (JString (replicate 10001 CHR '' '' @ ''hi'')))
       = \<lparr>valid = True, error = None\<rparr>
   \<and> validateMessage (Some (JString (replicate 20000 CHR '' '')))
       = \<lparr>valid = False, error = Some ''Message cannot be empty''\<rparr>"
proof -
  have sp: "is_space CHR '' ''"
    by (simp add: is_space_def)
  have "trim (replicate 10001 CHR '' '' @ ''hi'') = ''hi''"
    using sp by (simp only: trim_padded_left trim_hi)
  then have "1 \<le> length (trim (replicate 10001 CHR '' '' @ ''hi''))
      \<and> length (trim (replicate 10001 CHR '' '' @ ''hi'')) \<le> 10000"
    by simp
  moreover have "\<forall>c \<in> set (replicate 20000 CHR '' ''). is_space c"
    using sp by simp
  moreover have "replicate 20000 CHR '' '' \<noteq> []"
    by simp
  ultimately show ?thesis
    using validateMessage_limit_on_trimmed [of "replicate 10001 CHR '' '' @ ''hi''"]
      validateMessage_limit_on_trimmed [of "replicate 20000 CHR '' ''"]
    by simp
qed

section \<open>Properties of the stream relay\<close>



lemma forward_enq: "\<exists>js. forward ch = map Enqueue js \<and> length js \<le> 1"
proof (cases ch)
  case (Forwardable j)
  then have "forward ch = map Enqueue [j] \<and> length [j] \<le> 1" by simp
  then show ?thesis by blast
next
  case Unserializable
  then have "forward ch = map Enqueue [] \<and> length ([] :: json list) \<le> 1" by simp
  then show ?thesis by blast
next
  case NotAnObject
  then have "forward ch = map Enqueue [] \<and> length ([] :: json list) \<le> 1" by simp
  then show ?thesis by blast
qed

lemma fc_bound:
  "forwardChunks stream c out = (c', out', r) \<Longrightarrow> c \<le> maxMessages \<Longrightarrow>
     \<exists>fw. out' = out @ map Enqueue fw \<and> length fw + c \<le> maxMessages \<and> c \<le> c' \<and> c' \<le> maxMessages + 1"
proof (induction stream c out rule: forwardChunks.induct)
  case (1 stream messageCount out)
  show ?case
  proof (cases "stream messageCount")
    case End
    with "1.prems" show ?thesis by auto
  next
    case (Throw e)
    with "1.prems" show ?thesis by auto
  next
    case (Yield ch)
    show ?thesis
    proof (cases "messageCount + 1 > maxMessages")
      case True
      with Yield "1.prems" show ?thesis by auto
    next
      case False
      with Yield "1.prems" have run: "forwardChunks stream (messageCount + 1) (out @ forward ch) = (c', out', r)"
        by simp
      from False have le: "messageCount + 1 \<le> maxMessages" by simp
      from "1.IH" [OF Yield False run le] obtain fw where
        fw: "out' = (out @ forward ch) @ map Enqueue fw" "length fw + (messageCount + 1) \<le> maxMessages"
          "messageCount + 1 \<le> c'" "c' \<le> maxMessages + 1" by blast
      obtain js where js: "forward ch = map Enqueue js" "length js \<le> 1"
        using forward_enq by blast
      have "out' = out @ map Enqueue (js @ fw)" using fw(1) js(1) by simp
      moreover have "length (js @ fw) + messageCount \<le> maxMessages" using fw(2) js(2) by simp
      ultimately show ?thesis using fw(3,4) by (intro exI [of _ "js @ fw"]) simp
    qed
  qed
qed

lemma fc_run:
  "(\<forall>i<k. \<exists>ch. stream (c + i) = Yield ch) \<Longrightarrow> c + k \<le> maxMessages \<Longrightarrow>
   forwardChunks stream c out = forwardChunks stream (c + k) (out @ concat (map (\<lambda>i. item_out (stream i)) [c..<c + k]))"
proof (induction k arbitrary: c out)
  case 0
  then show ?case by simp
next
  case (Suc k)
  from Suc.prems(1) obtain ch where ch: "stream c = Yield ch" by force
  have step: "forwardChunks stream c out = forwardChunks stream (c + 1) (out @ forward ch)"
    using ch Suc.prems(2) by (subst forwardChunks.simps) simp
  have "\<forall>i<k. \<exists>ch. stream (c + 1 + i) = Yield ch"
    using Suc.prems(1) by (metis Suc_eq_plus1 Suc_less_eq add_Suc_shift)
  moreover have "c + 1 + k \<le> maxMessages" using Suc.prems(2) by simp
  ultimately have "forwardChunks stream (c + 1) (out @ forward ch)
      = forwardChunks stream (c + 1 + k) ((out @ forward ch) @ concat (map (\<lambda>i. item_out (stream i)) [c + 1..<c + 1 + k]))"
    by (rule Suc.IH)
  moreover have "[c..<c + Suc k] = c # [c + 1..<c + 1 + k]"
    by (simp add: upt_rec)
  ultimately show ?case using step ch by simp
qed


lemma fc_stop_ceiling:
  "stream maxMessages = Yield ch \<Longrightarrow> forwardChunks stream maxMessages out = (maxMessages + 1, out, None)"
  by (subst forwardChunks.simps) simp

lemma fc_stop_End: "stream n = End \<Longrightarrow> forwardChunks stream n out = (n, out, None)"
  by (subst forwardChunks.simps) simp

lemma fc_stop_Throw: "stream n = Throw e \<Longrightarrow> forwardChunks stream n out = (n, out, Some e)"
  by (subst forwardChunks.simps) simp

lemma start_shape:
  "\<exists>fw final. start development clock stream
       = Enqueue (connectionFrame (clock 0)) # map Enqueue fw @ [Enqueue final, Close]
     \<and> length fw \<le> maxMessages"
proof -
  obtain c' out' r where run: "forwardChunks stream 0 [Enqueue (connectionFrame (clock 0))] = (c', out', r)"
    using prod_cases3 by blast
  from fc_bound [OF run] obtain fw where
    fw: "out' = [Enqueue (connectionFrame (clock 0))] @ map Enqueue fw" "length fw \<le> maxMessages"
    by auto
  show ?thesis
  proof (cases r)
    case None
    with run fw(1) have "start development clock stream
       = Enqueue (connectionFrame (clock 0)) # map Enqueue fw @ [Enqueue (completionFrame (clock 1) c'), Close]"
      by (simp add: start_def)
    with fw(2) show ?thesis by blast
  next
    case (Some thrown)
    with run fw(1) have "start development clock stream
       = Enqueue (connectionFrame (clock 0)) # map Enqueue fw @ [Enqueue (errorFrame development thrown (clock 1)), Close]"
      by (simp add: start_def)
    with fw(2) show ?thesis by blast
  qed
qed

lemma start_ceiling:
  assumes "\<forall>i \<le> maxMessages. \<exists>ch. stream i = Yield ch"
  shows "start development clock stream
       = Enqueue (connectionFrame (clock 0)) # concat (map (\<lambda>i. item_out (stream i)) [0..<maxMessages])
           @ [Enqueue (completionFrame (clock 1) (maxMessages + 1)), Close]"
proof -
  from assms obtain ch where ch: "stream maxMessages = Yield ch" by blast
  have "\<forall>i<maxMessages. \<exists>ch. stream (0 + i) = Yield ch" using assms by simp
  from fc_run [OF this, of "[Enqueue (connectionFrame (clock 0))]"]
  have "forwardChunks stream 0 [Enqueue (connectionFrame (clock 0))]
     = forwardChunks stream maxMessages ([Enqueue (connectionFrame (clock 0))] @ concat (map (\<lambda>i. item_out (stream i)) [0..<maxMessages]))"
    by simp
  also have "\<dots> = (maxMessages + 1, [Enqueue (connectionFrame (clock 0))] @ concat (map (\<lambda>i. item_out (stream i)) [0..<maxMessages]), None)"
    using ch by (rule fc_stop_ceiling)
  finally show ?thesis by (simp add: start_def)
qed

lemma start_exhausted:
  assumes "\<forall>i<n. \<exists>ch. stream i = Yield ch" and "stream n = End" and "n \<le> maxMessages"
  shows "start development clock stream
       = Enqueue (connectionFrame (clock 0)) # concat (map (\<lambda>i. item_out (stream i)) [0..<n])
           @ [Enqueue (completionFrame (clock 1) n), Close]"
proof -
  have "\<forall>i<n. \<exists>ch. stream (0 + i) = Yield ch" using assms(1) by simp
  from fc_run [OF this, of "[Enqueue (connectionFrame (clock 0))]"] assms(3)
  have "forwardChunks stream 0 [Enqueue (connectionFrame (clock 0))]
     = forwardChunks stream n ([Enqueue (connectionFrame (clock 0))] @ concat (map (\<lambda>i. item_out (stream i)) [0..<n]))"
    by simp
  also have "\<dots> = (n, [Enqueue (connectionFrame (clock 0))] @ concat (map (\<lambda>i. item_out (stream i)) [0..<n]), None)"
    using assms(2) by (rule fc_stop_End)
  finally show ?thesis by (simp add: start_def)
qed

lemma start_thrown:
  assumes "\<forall>i<n. \<exists>ch. stream i = Yield ch" and "stream n = Throw e" and "n \<le> maxMessages"
  shows "start development clock stream
       = Enqueue (connectionFrame (clock 0)) # concat (map (\<lambda>i. item_out (stream i)) [0..<n])
           @ [Enqueue (errorFrame development e (clock 1)), Close]"
proof -
  have "\<forall>i<n. \<exists>ch. stream (0 + i) = Yield ch" using assms(1) by simp
  from fc_run [OF this, of "[Enqueue (connectionFrame (clock 0))]"] assms(3)
  have "forwardChunks stream 0 [Enqueue (connectionFrame (clock 0))]
     = forwardChunks stream n ([Enqueue (connectionFrame (clock 0))] @ concat (map (\<lambda>i. item_out (stream i)) [0..<n]))"
    by simp
  also have "\<dots> = (n, [Enqueue (connectionFrame (clock 0))] @ concat (map (\<lambda>i. item_out (stream i)) [0..<n]), Some e)"
    using assms(2) by (rule fc_stop_Throw)
  finally show ?thesis by (simp add: start_def)
qed

lemma start_frames:
  "\<exists>fw final.
     start development clock stream
       = Enqueue (connectionFrame (clock 0)) # map Enqueue fw @ [Enqueue final, Close]
     \<and> length fw \<le> 1000
     \<and> ((\<forall>i \<le> 1000. \<exists>ch. stream i = Yield ch) \<longrightarrow>
          final = completionFrame (clock 1) 1001
          \<and> map Enqueue fw = concat (map (\<lambda>i. item_out (stream i)) [0..<1000]))
     \<and> (\<forall>n \<le> 1000. (\<forall>i<n. \<exists>ch. stream i = Yield ch) \<and> stream n = End \<longrightarrow>
          final = completionFrame (clock 1) n)"
proof -
  obtain fw final where shape: "start development clock stream
       = Enqueue (connectionFrame (clock 0)) # map Enqueue fw @ [Enqueue final, Close]"
    and len: "length fw \<le> maxMessages"
    using start_shape by blast
  have ceiling: "final = completionFrame (clock 1) 1001
          \<and> map Enqueue fw = concat (map (\<lambda>i. item_out (stream i)) [0..<1000])"
    if "\<forall>i \<le> 1000. \<exists>ch. stream i = Yield ch"
  proof -
    from that have "\<forall>i \<le> maxMessages. \<exists>ch. stream i = Yield ch" by (simp add: maxMessages_def)
    from start_ceiling [OF this, of development clock] shape
    show ?thesis by (simp add: maxMessages_def)
  qed
  have exhausted: "final = completionFrame (clock 1) n"
    if "n \<le> 1000" and "(\<forall>i<n. \<exists>ch. stream i = Yield ch) \<and> stream n = End" for n
  proof -
    from that have "\<forall>i<n. \<exists>ch. stream i = Yield ch" "stream n = End" "n \<le> maxMessages"
      by (simp_all add: maxMessages_def)
    from start_exhausted [OF this, of development clock] shape
    show ?thesis by simp
  qed
  from shape len ceiling exhausted show ?thesis
    unfolding maxMessages_def by blast
qed

lemma show_nat_1001: "show_nat 1001 = ''1001''"
  by code_simp

lemma show_nat_2: "show_nat 2 = ''2''"
  by code_simp

lemma concat_singletons: "concat (map (\<lambda>i. [f i]) xs) = map f xs"
  by (induction xs) simp_all

text \<open>
  Claim C5. In one relay request at most 1,000 upstream events become wire frames. When
  the upstream yields more than 1,000 events, the counter exceeds the ceiling at the
  1,001st: the relay has forwarded what the first 1,000 events give and nothing more (the
  first 1,000 chunks themselves when each is an object that can be serialised), it
  enqueues no error frame but the completion frame, whose \<open>totalMessages\<close> is the
  counter, 1,001, and closes. When the upstream ends after \<open>n \<le> 1000\<close> events the
  completion frame carries \<open>n\<close>.
\<close>

theorem relay_ceiling:
  "\<exists>fw final.
     start development clock stream
       = Enqueue (JObject [(''type'', JString ''connection''),
            (''message'', JString ''Connected to chat service''),
            (''timestamp'', JString (clock 0))])
           # map Enqueue fw @ [Enqueue final, Close]
     \<and> length fw \<le> 1000
     \<and> ((\<forall>i \<le> 1000. \<exists>ch. stream i = Yield ch) \<longrightarrow>
          final = JObject [(''type'', JString ''completion''),
              (''message'', JString ''Chat response completed''),
              (''timestamp'', JString (clock 1)),
              (''totalMessages'', JNumber ''1001'')]
          \<and> map Enqueue fw = concat (map (\<lambda>i. item_out (stream i)) [0..<1000]))
     \<and> ((\<forall>i \<le> 1000. stream i = Yield (Forwardable (payload i))) \<longrightarrow>
          fw = map payload [0..<1000])
     \<and> (\<forall>n \<le> 1000. (\<forall>i<n. \<exists>ch. stream i = Yield ch) \<and> stream n = End \<longrightarrow>
          final = JObject [(''type'', JString ''completion''),
              (''message'', JString ''Chat response completed''),
              (''timestamp'', JString (clock 1)),
              (''totalMessages'', JNumber (show_nat n))])"
proof -
  from start_frames [of development clock stream] obtain fw final where
    shape: "start development clock stream
       = Enqueue (connectionFrame (clock 0)) # map Enqueue fw @ [Enqueue final, Close]"
    and len: "length fw \<le> 1000"
    and ceiling: "(\<forall>i \<le> 1000. \<exists>ch. stream i = Yield ch) \<longrightarrow>
          final = completionFrame (clock 1) 1001
          \<and> map Enqueue fw = concat (map (\<lambda>i. item_out (stream i)) [0..<1000])"
    and exhausted: "\<forall>n \<le> 1000. (\<forall>i<n. \<exists>ch. stream i = Yield ch) \<and> stream n = End \<longrightarrow>
          final = completionFrame (clock 1) n"
    by blast
  have chunks: "fw = map payload [0..<1000]"
    if all: "\<forall>i \<le> 1000. stream i = Yield (Forwardable (payload i))"
  proof -
    from all have "\<forall>i \<le> 1000. \<exists>ch. stream i = Yield ch"
      by simp
    with ceiling have "map Enqueue fw = concat (map (\<lambda>i. item_out (stream i)) [0..<1000])"
      by blast
    also have "\<dots> = concat (map (\<lambda>i. [Enqueue (payload i)]) [0..<1000])"
      using all by (intro arg_cong [where f = concat] map_cong) simp_all
    also have "\<dots> = map Enqueue (map payload [0..<1000])"
      by (simp add: concat_singletons)
    finally have "map Enqueue fw = map Enqueue (map payload [0..<1000])" .
    then show ?thesis
      by (rule map_injective) (simp add: inj_on_def)
  qed
  from shape len ceiling exhausted chunks show ?thesis
    unfolding connectionFrame_def completionFrame_def show_nat_1001 by blast
qed

theorem relay_ceiling_witness:
  "(\<exists>fw. start False (\<lambda>i. ''t'') (\<lambda>i. Yield (Forwardable (JObject [])))
       = Enqueue (JObject [(''type'', JString ''connection''),
            (''message'', JString ''Connected to chat service''),
            (''timestamp'', JString ''t'')])
           # map Enqueue fw
           @ [Enqueue (JObject [(''type'', JString ''completion''),
              (''message'', JString ''Chat response completed''),
              (''timestamp'', JString ''t''),
              (''totalMessages'', JNumber ''1001'')]), Close]
     \<and> length fw \<le> 1000 \<and> fw = map (\<lambda>i. JObject []) [0..<1000])
   \<and> (\<exists>fw. start False (\<lambda>i. ''t'') (\<lambda>i. if i < 2 then Yield NotAnObject else End)
       = Enqueue (JObject [(''type'', JString ''connection''),
            (''message'', JString ''Connected to chat service''),
            (''timestamp'', JString ''t'')])
           # map Enqueue fw
           @ [Enqueue (JObject [(''type'', JString ''completion''),
              (''message'', JString ''Chat response completed''),
              (''timestamp'', JString ''t''),
              (''totalMessages'', JNumber ''2'')]), Close])"
proof -
  define conn where "conn = JObject [(''type'', JString ''connection''),
            (''message'', JString ''Connected to chat service''),
            (''timestamp'', JString ''t'')]"
  define comp where "comp = (\<lambda>n. JObject [(''type'', JString ''completion''),
              (''message'', JString ''Chat response completed''),
              (''timestamp'', JString ''t''),
              (''totalMessages'', JNumber n)])"
  let ?s = "\<lambda>i::nat. Yield (Forwardable (JObject []))"
  let ?u = "\<lambda>i::nat. if i < 2 then Yield NotAnObject else End"
  have over: "\<exists>fw final.
     start False (\<lambda>i. ''t'') ?s = Enqueue conn # map Enqueue fw @ [Enqueue final, Close]
     \<and> length fw \<le> 1000
     \<and> ((\<forall>i \<le> 1000. \<exists>ch. ?s i = Yield ch) \<longrightarrow>
          final = comp ''1001''
          \<and> map Enqueue fw = concat (map (\<lambda>i. item_out (?s i)) [0..<1000]))
     \<and> ((\<forall>i \<le> 1000. ?s i = Yield (Forwardable (JObject []))) \<longrightarrow>
          fw = map (\<lambda>i. JObject []) [0..<1000])
     \<and> (\<forall>n \<le> 1000. (\<forall>i<n. \<exists>ch. ?s i = Yield ch) \<and> ?s n = End \<longrightarrow>
          final = comp (show_nat n))"
    unfolding conn_def comp_def
    by (rule relay_ceiling [of False "\<lambda>i. ''t''" ?s "\<lambda>i. JObject []"])
  have under: "\<exists>fw final.
     start False (\<lambda>i. ''t'') ?u = Enqueue conn # map Enqueue fw @ [Enqueue final, Close]
     \<and> length fw \<le> 1000
     \<and> ((\<forall>i \<le> 1000. \<exists>ch. ?u i = Yield ch) \<longrightarrow>
          final = comp ''1001''
          \<and> map Enqueue fw = concat (map (\<lambda>i. item_out (?u i)) [0..<1000]))
     \<and> ((\<forall>i \<le> 1000. ?u i = Yield (Forwardable (JObject []))) \<longrightarrow>
          fw = map (\<lambda>i. JObject []) [0..<1000])
     \<and> (\<forall>n \<le> 1000. (\<forall>i<n. \<exists>ch. ?u i = Yield ch) \<and> ?u n = End \<longrightarrow>
          final = comp (show_nat n))"
    unfolding conn_def comp_def
    by (rule relay_ceiling [of False "\<lambda>i. ''t''" ?u "\<lambda>i. JObject []"])
  have all: "\<forall>i \<le> 1000. ?s i = Yield (Forwardable (JObject []))"
    by simp
  then have yields: "\<forall>i \<le> 1000. \<exists>ch. ?s i = Yield ch"
    by simp
  from over all yields
  have first: "\<exists>fw. start False (\<lambda>i. ''t'') ?s
       = Enqueue conn # map Enqueue fw @ [Enqueue (comp ''1001''), Close]
     \<and> length fw \<le> 1000 \<and> fw = map (\<lambda>i. JObject []) [0..<1000]"
    by blast
  have "(2::nat) \<le> 1000" and "(\<forall>i<2. \<exists>ch. ?u i = Yield ch) \<and> ?u 2 = End"
    by simp_all
  moreover from under obtain fw final where
    shape: "start False (\<lambda>i. ''t'') ?u = Enqueue conn # map Enqueue fw @ [Enqueue final, Close]"
    and ended: "\<forall>n \<le> 1000. (\<forall>i<n. \<exists>ch. ?u i = Yield ch) \<and> ?u n = End \<longrightarrow>
          final = comp (show_nat n)"
    by blast
  ultimately have "final = comp (show_nat 2)"
    by blast
  with shape
  have "\<exists>fw. start False (\<lambda>i. ''t'') ?u
       = Enqueue conn # map Enqueue fw @ [Enqueue (comp (show_nat 2)), Close]"
    by blast
  then have second: "\<exists>fw. start False (\<lambda>i. ''t'') ?u
       = Enqueue conn # map Enqueue fw @ [Enqueue (comp ''2''), Close]"
    unfolding show_nat_2 .
  from first second show ?thesis
    unfolding conn_def comp_def by (rule conjI)
qed

lemma respond_not_stream: "respond e \<noteq> EventStream trace"
  by (cases e) simp_all

lemma POST_stream:
  "POST assistantId serverClient development clock body = EventStream trace \<Longrightarrow>
   \<exists>upstream. trace = start development clock upstream"
  by (auto simp: POST_def POST_try_def Let_def respond_not_stream
      split: sum.splits body_result.splits if_splits option.splits open_result.splits)

text \<open>
  Claim C6. Whatever the upstream does (ends, throws, or yields for ever), the first thing
  the relay gives the downstream controller is the connection frame
  \<open>{type: 'connection', message: 'Connected to chat service', timestamp}\<close>, before any
  chunk of the upstream, and the last thing it does, once only, is to close the stream.
  Every 200 response of the route is such a stream.
\<close>

theorem relay_opens_and_closes:
  "(\<exists>rest. start development clock stream
        = Enqueue (JObject [(''type'', JString ''connection''),
               (''message'', JString ''Connected to chat service''),
               (''timestamp'', JString (clock 0))]) # rest @ [Close]
      \<and> Close \<notin> set rest)
   \<and> (POST assistantId serverClient development clock body = EventStream trace \<longrightarrow>
      (\<exists>rest. trace
          = Enqueue (JObject [(''type'', JString ''connection''),
               (''message'', JString ''Connected to chat service''),
               (''timestamp'', JString (clock 0))]) # rest @ [Close]
        \<and> Close \<notin> set rest))"
proof -
  have shape: "\<exists>rest. start development clock s
        = Enqueue (JObject [(''type'', JString ''connection''),
               (''message'', JString ''Connected to chat service''),
               (''timestamp'', JString (clock 0))]) # rest @ [Close]
      \<and> Close \<notin> set rest" for s
  proof -
    obtain fw final where "start development clock s
        = Enqueue (connectionFrame (clock 0)) # map Enqueue fw @ [Enqueue final, Close]"
      using start_shape by blast
    then have "start development clock s
        = Enqueue (JObject [(''type'', JString ''connection''),
               (''message'', JString ''Connected to chat service''),
               (''timestamp'', JString (clock 0))]) # (map Enqueue fw @ [Enqueue final]) @ [Close]
      \<and> Close \<notin> set (map Enqueue fw @ [Enqueue final])"
      by (auto simp: connectionFrame_def)
    then show ?thesis by blast
  qed
  show ?thesis
  proof (intro conjI impI)
    show "\<exists>rest. start development clock stream
        = Enqueue (JObject [(''type'', JString ''connection''),
               (''message'', JString ''Connected to chat service''),
               (''timestamp'', JString (clock 0))]) # rest @ [Close]
      \<and> Close \<notin> set rest"
      by (rule shape)
  next
    assume "POST assistantId serverClient development clock body = EventStream trace"
    then obtain upstream where "trace = start development clock upstream"
      using POST_stream by blast
    with shape [of upstream]
    show "\<exists>rest. trace
          = Enqueue (JObject [(''type'', JString ''connection''),
               (''message'', JString ''Connected to chat service''),
               (''timestamp'', JString (clock 0))]) # rest @ [Close]
        \<and> Close \<notin> set rest"
      by simp
  qed
qed

lemma body0_valid: "validInput body0"
  by (simp add: body0_def validInput_def validateMessage_def validateThreadId_def
      trim_def is_space_def passed_def)


lemma POST_body0:
  "POST (Some ''assistant'') (Some (\<lambda>t a q. r)) development clock (Parsed body0)
     = (case r of Opened upstream \<Rightarrow> EventStream (start development clock upstream)
        | OpenFailed thrown \<Rightarrow> respond (openFailure thrown))"
  using body0_valid
  by (simp add: POST_def POST_try_def validInput_def Let_def unset_def body0_def
      split: open_result.splits)

theorem relay_opens_and_closes_witness:
  "POST (Some ''assistant'') (Some (\<lambda>t a q. Opened stream0)) False clock0 (Parsed body0)
     = EventStream (start False clock0 stream0)
   \<and> (\<exists>rest. start False clock0 stream0
        = Enqueue (JObject [(''type'', JString ''connection''),
               (''message'', JString ''Connected to chat service''),
               (''timestamp'', JString ''t0'')]) # rest @ [Close]
        \<and> Close \<notin> set rest)"
proof -
  have run: "POST (Some ''assistant'') (Some (\<lambda>t a q. Opened stream0)) False clock0 (Parsed body0)
     = EventStream (start False clock0 stream0)"
    by (simp add: POST_body0)
  from relay_opens_and_closes [of False clock0 stream0 "Some ''assistant''"
      "Some (\<lambda>t a q. Opened stream0)" "Parsed body0" "start False clock0 stream0"] run
  show ?thesis
    by (simp add: clock0_def)
qed

text \<open>
  Claim C8. The classification of the responses of \<open>POST\<close>: a body that is not JSON or
  fails a validator gives 400 with type \<open>validation_error\<close>; with valid input, a missing
  configuration or server client gives 503, and a failure to open the upstream gives 404
  when its message names a missing thread, else 429 when it names a quota or rate limit,
  else 503, each with type \<open>chat_error\<close>; any other value thrown in the handler, as
  by a \<open>null\<close> body, gives 500 with type \<open>server_error\<close>. Every response is the 200
  stream or of one of these classes.
\<close>

theorem POST_classification:
  "(body = InvalidJson \<or> (\<exists>b. body = Parsed b \<and> b \<noteq> JNull \<and> \<not> validInput b) \<longrightarrow>
      (\<exists>m. POST assistantId serverClient development clock body
            = JsonResponse 400 ''validation_error'' m))
   \<and> (body = Parsed b \<and> b \<noteq> JNull \<and> validInput b \<longrightarrow>
        (unset assistantId \<or> serverClient = None \<longrightarrow>
           (\<exists>m. POST assistantId serverClient development clock body
                 = JsonResponse 503 ''chat_error'' m))
      \<and> (\<not> unset assistantId \<and> serverClient = Some stream \<and>
           stream (string_of (get_prop b ''threadId'')) (env_value assistantId)
             (trim (string_of (get_prop b ''message''))) = OpenFailed thrown \<longrightarrow>
           (\<exists>m. POST assistantId serverClient development clock body
                 = JsonResponse
                     (if sessionNotFound thrown then 404
                      else if rateOrQuota thrown then 429 else 503)
                     ''chat_error'' m)))
   \<and> (body = Parsed JNull \<or>
      (\<exists>e. POST_try assistantId serverClient development clock body = Inl (OtherError e)) \<longrightarrow>
        (\<exists>m. POST assistantId serverClient development clock body
              = JsonResponse 500 ''server_error'' m))
   \<and> ((\<exists>trace. POST assistantId serverClient development clock body = EventStream trace)
      \<or> (\<exists>m. POST assistantId serverClient development clock body
               = JsonResponse 400 ''validation_error'' m)
      \<or> (\<exists>m. POST assistantId serverClient development clock body
               = JsonResponse 404 ''chat_error'' m)
      \<or> (\<exists>m. POST assistantId serverClient development clock body
               = JsonResponse 429 ''chat_error'' m)
      \<or> (\<exists>m. POST assistantId serverClient development clock body
               = JsonResponse 503 ''chat_error'' m)
      \<or> (\<exists>m. POST assistantId serverClient development clock body
               = JsonResponse 500 ''server_error'' m))"
proof (intro conjI impI)
  assume "body = InvalidJson \<or> (\<exists>b. body = Parsed b \<and> b \<noteq> JNull \<and> \<not> validInput b)"
  then show "\<exists>m. POST assistantId serverClient development clock body
            = JsonResponse 400 ''validation_error'' m"
    by (auto simp: POST_def POST_try_def validInput_def Let_def)
next
  assume ok: "body = Parsed b \<and> b \<noteq> JNull \<and> validInput b"
    and "unset assistantId \<or> serverClient = None"
  then show "\<exists>m. POST assistantId serverClient development clock body
                 = JsonResponse 503 ''chat_error'' m"
    by (auto simp: POST_def POST_try_def validInput_def Let_def)
next
  assume ok: "body = Parsed b \<and> b \<noteq> JNull \<and> validInput b"
    and "\<not> unset assistantId \<and> serverClient = Some stream \<and>
           stream (string_of (get_prop b ''threadId'')) (env_value assistantId)
             (trim (string_of (get_prop b ''message''))) = OpenFailed thrown"
  then show "\<exists>m. POST assistantId serverClient development clock body
                 = JsonResponse
                     (if sessionNotFound thrown then 404
                      else if rateOrQuota thrown then 429 else 503)
                     ''chat_error'' m"
    by (simp add: POST_def POST_try_def validInput_def Let_def openFailure_def)
next
  assume "body = Parsed JNull \<or>
      (\<exists>e. POST_try assistantId serverClient development clock body = Inl (OtherError e))"
  then show "\<exists>m. POST assistantId serverClient development clock body
              = JsonResponse 500 ''server_error'' m"
    by (auto simp: POST_def POST_try_def)
next
  show "(\<exists>trace. POST assistantId serverClient development clock body = EventStream trace)
      \<or> (\<exists>m. POST assistantId serverClient development clock body
               = JsonResponse 400 ''validation_error'' m)
      \<or> (\<exists>m. POST assistantId serverClient development clock body
               = JsonResponse 404 ''chat_error'' m)
      \<or> (\<exists>m. POST assistantId serverClient development clock body
               = JsonResponse 429 ''chat_error'' m)
      \<or> (\<exists>m. POST assistantId serverClient development clock body
               = JsonResponse 503 ''chat_error'' m)
      \<or> (\<exists>m. POST assistantId serverClient development clock body
               = JsonResponse 500 ''server_error'' m)"
    by (simp add: POST_def POST_try_def Let_def openFailure_def
        split: body_result.splits option.splits open_result.splits)
qed

theorem POST_classification_witness:
  "(\<exists>m. POST None None False clock0 InvalidJson = JsonResponse 400 ''validation_error'' m)
   \<and> (\<exists>m. POST None None False clock0 (Parsed body0) = JsonResponse 503 ''chat_error'' m)
   \<and> (\<exists>m. POST (Some ''assistant'') (Some (\<lambda>t a q. OpenFailed (Some ''thread not found: t1'')))
            False clock0 (Parsed body0) = JsonResponse 404 ''chat_error'' m)
   \<and> (\<exists>m. POST (Some ''assistant'') (Some (\<lambda>t a q. OpenFailed (Some ''rate limit exceeded'')))
            False clock0 (Parsed body0) = JsonResponse 429 ''chat_error'' m)
   \<and> (\<exists>m. POST (Some ''assistant'') (Some (\<lambda>t a q. OpenFailed None))
            False clock0 (Parsed body0) = JsonResponse 503 ''chat_error'' m)
   \<and> (\<exists>m. POST None None False clock0 (Parsed JNull) = JsonResponse 500 ''server_error'' m)"
proof -
  have b0: "Parsed body0 = Parsed body0 \<and> body0 \<noteq> JNull \<and> validInput body0"
    using body0_valid by (simp add: body0_def)
  have set: "\<not> unset (Some ''assistant'')"
    by (simp add: unset_def)
  have nf: "sessionNotFound (Some ''thread not found: t1'')"
    by (simp add: sessionNotFound_def starts_with_def)
  have rl: "\<not> sessionNotFound (Some ''rate limit exceeded'') \<and> rateOrQuota (Some ''rate limit exceeded'')"
    by (simp add: sessionNotFound_def rateOrQuota_def starts_with_def)
  have other: "\<not> sessionNotFound None \<and> \<not> rateOrQuota None"
    by (simp add: sessionNotFound_def rateOrQuota_def)
  have "\<exists>m. POST None None False clock0 InvalidJson = JsonResponse 400 ''validation_error'' m"
    using POST_classification [of InvalidJson None None False clock0] by simp
  moreover have "\<exists>m. POST None None False clock0 (Parsed body0) = JsonResponse 503 ''chat_error'' m"
    using POST_classification [of "Parsed body0" None None False clock0 body0] b0 by simp
  moreover have "\<exists>m. POST (Some ''assistant'') (Some (\<lambda>t a q. OpenFailed (Some ''thread not found: t1'')))
            False clock0 (Parsed body0) = JsonResponse 404 ''chat_error'' m"
    using POST_classification [of "Parsed body0" "Some ''assistant''"
        "Some (\<lambda>t a q. OpenFailed (Some ''thread not found: t1''))" False clock0 body0
        "\<lambda>t a q. OpenFailed (Some ''thread not found: t1'')" "Some ''thread not found: t1''"]
      b0 set nf by simp
  moreover have "\<exists>m. POST (Some ''assistant'') (Some (\<lambda>t a q. OpenFailed (Some ''rate limit exceeded'')))
            False clock0 (Parsed body0) = JsonResponse 429 ''chat_error'' m"
    using POST_classification [of "Parsed body0" "Some ''assistant''"
        "Some (\<lambda>t a q. OpenFailed (Some ''rate limit exceeded''))" False clock0 body0
        "\<lambda>t a q. OpenFailed (Some ''rate limit exceeded'')" "Some ''rate limit exceeded''"]
      b0 set rl by simp
  moreover have "\<exists>m. POST (Some ''assistant'') (Some (\<lambda>t a q. OpenFailed None))
            False clock0 (Parsed body0) = JsonResponse 503 ''chat_error'' m"
    using POST_classification [of "Parsed body0" "Some ''assistant''"
        "Some (\<lambda>t a q. OpenFailed None)" False clock0 body0
        "\<lambda>t a q. OpenFailed None" None]
      b0 set other by simp
  moreover have "\<exists>m. POST None None False clock0 (Parsed JNull) = JsonResponse 500 ''server_error'' m"
    using POST_classification [of "Parsed JNull" None None False clock0] by simp
  ultimately show ?thesis
    by blast
qed

section \<open>Properties of the reading of JSON\<close>

text \<open>More fuel does not change a value that was parsed.\<close>

lemma fuel_step:
  "(\<forall>s r. parse_value n s = Some r \<longrightarrow> parse_value (Suc n) s = Some r)
   \<and> (\<forall>s acc r. parse_elements n s acc = Some r \<longrightarrow> parse_elements (Suc n) s acc = Some r)
   \<and> (\<forall>s kvs r. parse_members n s kvs = Some r \<longrightarrow> parse_members (Suc n) s kvs = Some r)"
proof (induction n)
  case 0
  show ?case by simp
next
  case (Suc n)
  then have v: "\<And>s r. parse_value n s = Some r \<Longrightarrow> parse_value (Suc n) s = Some r"
    and e: "\<And>s acc r. parse_elements n s acc = Some r \<Longrightarrow> parse_elements (Suc n) s acc = Some r"
    and m: "\<And>s kvs r. parse_members n s kvs = Some r \<Longrightarrow> parse_members (Suc n) s kvs = Some r"
    by blast+
  have V: "parse_value (Suc (Suc n)) s = Some r" if "parse_value (Suc n) s = Some r" for s r
    using that e m
    unfolding parse_value.simps(2) [of "Suc n"] parse_value.simps(2) [of n]
    by (auto simp del: parse_value.simps parse_elements.simps parse_members.simps
        simp: Let_def split: if_splits)
  have E: "parse_elements (Suc (Suc n)) s acc = Some r" if "parse_elements (Suc n) s acc = Some r" for s acc r
  proof -
    from that obtain x rest where pv: "parse_value n s = Some (x, rest)"
      by (subst (asm) parse_elements.simps) (auto simp del: parse_value.simps parse_elements.simps parse_members.simps split: option.splits)
    then have pv': "parse_value (Suc n) s = Some (x, rest)"
      by (rule v)
    from that pv have "(let r = skip_ws rest in
           if starts_with r '','' then parse_elements n (skip_ws (drop 1 r)) (acc @ [x])
           else if starts_with r '']'' then Some (JArray (acc @ [x]), drop 1 r)
           else None) = Some r"
      by (subst (asm) parse_elements.simps) (simp del: parse_value.simps parse_elements.simps parse_members.simps)
    then have "(let r = skip_ws rest in
           if starts_with r '','' then parse_elements (Suc n) (skip_ws (drop 1 r)) (acc @ [x])
           else if starts_with r '']'' then Some (JArray (acc @ [x]), drop 1 r)
           else None) = Some r"
      using e by (auto simp del: parse_value.simps parse_elements.simps parse_members.simps simp: Let_def split: if_splits)
    with pv' show ?thesis
      by (subst parse_elements.simps) (simp del: parse_value.simps parse_elements.simps parse_members.simps)
  qed
  have M: "parse_members (Suc (Suc n)) s kvs = Some r" if "parse_members (Suc n) s kvs = Some r" for s kvs r
  proof -
    from that have q: "starts_with s [CHR 0x22]"
      by (subst (asm) parse_members.simps) (auto simp del: parse_value.simps parse_elements.simps parse_members.simps split: if_splits)
    with that obtain k rest where pc: "parse_chars (drop 1 s) [] = Some (k, rest)"
      by (subst (asm) parse_members.simps) (auto simp del: parse_value.simps parse_elements.simps parse_members.simps split: option.splits)
    with that q have c: "starts_with (skip_ws rest) '':''"
      by (subst (asm) parse_members.simps) (auto simp del: parse_value.simps parse_elements.simps parse_members.simps simp: Let_def split: if_splits)
    with that q pc obtain x rest' where
      pv: "parse_value n (skip_ws (drop 1 (skip_ws rest))) = Some (x, rest')"
      by (subst (asm) parse_members.simps) (auto simp del: parse_value.simps parse_elements.simps parse_members.simps simp: Let_def split: option.splits)
    then have pv': "parse_value (Suc n) (skip_ws (drop 1 (skip_ws rest))) = Some (x, rest')"
      by (rule v)
    from that q pc c pv have "(let r' = skip_ws rest' in
                if starts_with r' '','' then parse_members n (skip_ws (drop 1 r')) (set_member k x kvs)
                else if starts_with r' ''}'' then Some (JObject (set_member k x kvs), drop 1 r')
                else None) = Some r"
      by (subst (asm) parse_members.simps) (simp del: parse_value.simps parse_elements.simps parse_members.simps add: Let_def)
    then have "(let r' = skip_ws rest' in
                if starts_with r' '','' then parse_members (Suc n) (skip_ws (drop 1 r')) (set_member k x kvs)
                else if starts_with r' ''}'' then Some (JObject (set_member k x kvs), drop 1 r')
                else None) = Some r"
      using m by (auto simp del: parse_value.simps parse_elements.simps parse_members.simps simp: Let_def split: if_splits)
    with q pc c pv' show ?thesis
      by (subst parse_members.simps) (simp del: parse_value.simps parse_elements.simps parse_members.simps add: Let_def)
  qed
  from V E M show ?case by blast
qed

lemma fuel_mono3:
  "n \<le> m \<Longrightarrow>
   (parse_value n s = Some r \<longrightarrow> parse_value m s = Some r)
   \<and> (parse_elements n s acc = Some r \<longrightarrow> parse_elements m s acc = Some r)
   \<and> (parse_members n s kvs = Some r \<longrightarrow> parse_members m s kvs = Some r)"
proof (induction m)
  case 0
  then show ?case by simp
next
  case (Suc m)
  show ?case
  proof (cases "n = Suc m")
    case True
    then show ?thesis by simp
  next
    case False
    with Suc.prems have "n \<le> m" by simp
    with Suc.IH fuel_step [of m] show ?thesis by blast
  qed
qed


text \<open>Each part of the reading consumes some of the text.\<close>

lemma starts_with_length: "starts_with s p \<Longrightarrow> length p \<le> length s"
  by (metis starts_with_def length_take min.cobounded1)

lemma starts_with_drop1: "starts_with s [c] \<Longrightarrow> length (drop 1 s) < length s"
  using starts_with_length [of s "[c]"] by simp

lemma length_skip_ws: "length (skip_ws s) \<le> length s"
  by (simp add: skip_ws_def length_dropWhile_le)

lemma parse_chars_shorter: "parse_chars s acc = Some (str, rest) \<Longrightarrow> length rest < length s"
proof (induction s acc rule: parse_chars.induct)
  case (1 acc)
  then show ?case by simp
next
  case (2 c cs acc)
  show ?case
  proof (cases "c = CHR 0x22")
    case True
    with "2.prems" show ?thesis by simp
  next
    case notq: False
    show ?thesis
    proof (cases "c = CHR 0x5C")
      case esc: True
      from "2.prems" notq esc obtain e r where cs: "cs = e # r"
        by (cases cs) auto
      show ?thesis
      proof (cases "e = CHR ''u''")
        case u: True
        from "2.prems" notq esc cs u obtain ch where
          ch: "unicode_escape (take 4 r) = Some ch"
          and run: "parse_chars (drop 4 r) (ch # acc) = Some (str, rest)"
          by (auto split: option.splits)
        from "2.IH"(1) [OF notq esc cs u ch run]
        have "length rest < length (drop 4 r)" .
        with cs show ?thesis by simp
      next
        case nu: False
        from "2.prems" notq esc cs nu obtain ch where
          ch: "unescape e = Some ch"
          and run: "parse_chars r (ch # acc) = Some (str, rest)"
          by (auto split: option.splits)
        from "2.IH"(2) [OF notq esc cs nu ch run]
        have "length rest < length r" .
        with cs show ?thesis by simp
      qed
    next
      case plain: False
      with "2.prems" notq have ok: "\<not> (of_char c :: nat) < 32"
        and run: "parse_chars cs (c # acc) = Some (str, rest)"
        by (auto split: if_splits)
      from "2.IH"(3) [OF notq plain ok run] show ?thesis by simp
    qed
  qed
qed

lemma parse_digits_shorter: "parse_digits s = Some (ds, rest) \<Longrightarrow> length rest < length s"
proof -
  assume a: "parse_digits s = Some (ds, rest)"
  then have "takeWhile is_digit s \<noteq> []" and "rest = dropWhile is_digit s"
    by (auto simp: parse_digits_def Let_def split: if_splits)
  moreover have "length (takeWhile is_digit s) + length (dropWhile is_digit s) = length s"
    by (metis length_append takeWhile_dropWhile_id)
  ultimately show ?thesis
    by (cases "takeWhile is_digit s") auto
qed

lemma parse_digits_drop: "parse_digits (drop k t) = Some (ds, rest) \<Longrightarrow> length rest \<le> length t"
  using parse_digits_shorter [of "drop k t" ds rest] by simp

lemma parse_number_shorter: "parse_number s = Some (lexeme, rest) \<Longrightarrow> length rest < length s"
proof -
  assume a: "parse_number s = Some (lexeme, rest)"
  let ?s1 = "drop (length (if starts_with s ''-'' then ''-'' else [])) s"
  have l1: "length ?s1 \<le> length s"
    by simp
  from a obtain int_part s2 frac s3 ex where
    i: "(if starts_with ?s1 ''0'' then Some (''0'', drop 1 ?s1) else parse_digits ?s1)
          = Some (int_part, s2)"
    and f: "(if starts_with s2 ''.''
                 then map_option (\<lambda>(ds, r). (''.'' @ ds, r)) (parse_digits (drop 1 s2))
                 else Some ([], s2)) = Some (frac, s3)"
    and e: "(if starts_with s3 ''e'' \<or> starts_with s3 ''E'' then
                        (let s4 = drop 1 s3;
                             esign = (if starts_with s4 ''+'' \<or> starts_with s4 ''-''
                                      then take 1 s4 else [])
                         in map_option (\<lambda>(ds, r). (take 1 s3 @ esign @ ds, r))
                              (parse_digits (drop (length esign) s4)))
                      else Some ([], s3)) = Some (ex, rest)"
    unfolding parse_number_def Let_def
    by (auto split: option.splits simp del: One_nat_def)
  have l2: "length s2 < length ?s1"
  proof (cases "starts_with ?s1 ''0''")
    case True
    with i starts_with_drop1 [of ?s1 "CHR ''0''"] show ?thesis by auto
  next
    case False
    with i show ?thesis by (auto dest: parse_digits_shorter)
  qed
  have l3: "length s3 \<le> length s2"
  proof (cases "starts_with s2 ''.''")
    case True
    with f obtain ds where "parse_digits (drop 1 s2) = Some (ds, s3)"
      by auto
    then have "length s3 < length (drop 1 s2)"
      by (rule parse_digits_shorter)
    then show ?thesis by simp
  next
    case False
    with f show ?thesis by simp
  qed
  have l4: "length rest \<le> length s3"
  proof (cases "starts_with s3 ''e'' \<or> starts_with s3 ''E''")
    case True
    with e show ?thesis
      by (auto simp: Let_def dest: parse_digits_drop)
  next
    case False
    with e show ?thesis by simp
  qed
  from l1 l2 l3 l4 show ?thesis by linarith
qed

lemma skip_drop_shorter: "starts_with s [c] \<Longrightarrow> length (skip_ws (drop 1 s)) < length s"
  using starts_with_drop1 [of s c] length_skip_ws [of "drop 1 s"] by linarith

lemma starts_with_drop: "starts_with s p \<Longrightarrow> p \<noteq> [] \<Longrightarrow> length (drop (length p) s) < length s"
  using starts_with_length [of s p] by (cases p) auto

lemma value_len_step:
  assumes e: "\<And>s acc v rest. parse_elements n s acc = Some (v, rest) \<Longrightarrow> length rest < length s"
    and m: "\<And>s kvs v rest. parse_members n s kvs = Some (v, rest) \<Longrightarrow> length rest < length s"
    and p: "parse_value (Suc n) s = Some (v, rest)"
  shows "length rest < length s"
proof -
  consider (lit) "starts_with s ''null'' \<or> starts_with s ''true'' \<or> starts_with s ''false''"
    | (str) "\<not> (starts_with s ''null'' \<or> starts_with s ''true'' \<or> starts_with s ''false'')"
        "starts_with s [CHR 0x22]"
    | (arr) "\<not> (starts_with s ''null'' \<or> starts_with s ''true'' \<or> starts_with s ''false'')"
        "\<not> starts_with s [CHR 0x22]" "starts_with s ''[''"
    | (obj) "\<not> (starts_with s ''null'' \<or> starts_with s ''true'' \<or> starts_with s ''false'')"
        "\<not> starts_with s [CHR 0x22]" "\<not> starts_with s ''[''" "starts_with s ''{''"
    | (num) "\<not> (starts_with s ''null'' \<or> starts_with s ''true'' \<or> starts_with s ''false'')"
        "\<not> starts_with s [CHR 0x22]" "\<not> starts_with s ''[''" "\<not> starts_with s ''{''"
    by blast
  then show ?thesis
  proof cases
    case lit
    with p starts_with_drop [of s "''null''"] starts_with_drop [of s "''true''"]
      starts_with_drop [of s "''false''"]
    show ?thesis by (auto split: if_splits)
  next
    case str
    with p obtain x where "parse_chars (drop 1 s) [] = Some (x, rest)"
      by auto
    then have "length rest < length (drop 1 s)"
      by (rule parse_chars_shorter)
    then show ?thesis by simp
  next
    case arr
    let ?r = "skip_ws (drop 1 s)"
    have r: "length ?r < length s"
      using arr(3) by (rule skip_drop_shorter)
    show ?thesis
    proof (cases "starts_with ?r '']''")
      case True
      with p arr have "rest = drop 1 ?r" by (simp add: Let_def)
      with r show ?thesis by simp
    next
      case False
      with p arr have "parse_elements n ?r [] = Some (v, rest)" by (simp add: Let_def)
      from e [OF this] r show ?thesis by simp
    qed
  next
    case obj
    let ?r = "skip_ws (drop 1 s)"
    have r: "length ?r < length s"
      using obj(4) by (rule skip_drop_shorter)
    show ?thesis
    proof (cases "starts_with ?r ''}''")
      case True
      with p obj have "rest = drop 1 ?r" by (simp add: Let_def)
      with r show ?thesis by simp
    next
      case False
      with p obj have "parse_members n ?r [] = Some (v, rest)" by (simp add: Let_def)
      from m [OF this] r show ?thesis by simp
    qed
  next
    case num
    with p obtain x where "parse_number s = Some (x, rest)"
      by auto
    then show ?thesis
      by (rule parse_number_shorter)
  qed
qed


lemma elements_len_step:
  assumes v: "\<And>s v rest. parse_value n s = Some (v, rest) \<Longrightarrow> length rest < length s"
    and e: "\<And>s acc v rest. parse_elements n s acc = Some (v, rest) \<Longrightarrow> length rest < length s"
    and p: "parse_elements (Suc n) s acc = Some (v, rest)"
  shows "length rest < length s"
proof -
  from p obtain x rest1 where pv: "parse_value n s = Some (x, rest1)"
    by (auto split: option.splits)
  let ?r = "skip_ws rest1"
  have r: "length ?r < length s"
    using v [OF pv] length_skip_ws [of rest1] by linarith
  show ?thesis
  proof (cases "starts_with ?r '',''")
    case True
    with p pv have "parse_elements n (skip_ws (drop 1 ?r)) (acc @ [x]) = Some (v, rest)"
      by (simp add: Let_def)
    from e [OF this] length_skip_ws [of "drop 1 ?r"] r show ?thesis
      by simp
  next
    case False
    with p pv have "rest = drop 1 ?r"
      by (auto simp: Let_def split: if_splits)
    with r show ?thesis by simp
  qed
qed

lemma members_len_step:
  assumes v: "\<And>s v rest. parse_value n s = Some (v, rest) \<Longrightarrow> length rest < length s"
    and m: "\<And>s kvs v rest. parse_members n s kvs = Some (v, rest) \<Longrightarrow> length rest < length s"
    and p: "parse_members (Suc n) s kvs = Some (v, rest)"
  shows "length rest < length s"
proof -
  from p have q: "starts_with s [CHR 0x22]"
    by (auto split: if_splits)
  with p obtain k rest0 where pc: "parse_chars (drop 1 s) [] = Some (k, rest0)"
    by (auto split: option.splits)
  let ?r = "skip_ws rest0"
  have r: "length ?r < length s"
    using parse_chars_shorter [OF pc] length_skip_ws [of rest0] by simp
  from p q pc have c: "starts_with ?r '':''"
    by (auto simp: Let_def split: if_splits)
  with p q pc obtain x rest1 where pv: "parse_value n (skip_ws (drop 1 ?r)) = Some (x, rest1)"
    by (auto simp: Let_def split: option.splits)
  let ?r1 = "skip_ws rest1"
  have r1: "length ?r1 < length s"
    using v [OF pv] length_skip_ws [of rest1] length_skip_ws [of "drop 1 ?r"] r by simp
  show ?thesis
  proof (cases "starts_with ?r1 '',''")
    case True
    with p q pc c pv have
      "parse_members n (skip_ws (drop 1 ?r1)) (set_member k x kvs) = Some (v, rest)"
      by (simp add: Let_def)
    from m [OF this] length_skip_ws [of "drop 1 ?r1"] r1 show ?thesis
      by simp
  next
    case False
    with p q pc c pv have "rest = drop 1 ?r1"
      by (auto simp: Let_def split: if_splits)
    with r1 show ?thesis by simp
  qed
qed

lemma shorter_all:
  "(\<forall>s v rest. parse_value n s = Some (v, rest) \<longrightarrow> length rest < length s)
   \<and> (\<forall>s acc v rest. parse_elements n s acc = Some (v, rest) \<longrightarrow> length rest < length s)
   \<and> (\<forall>s kvs v rest. parse_members n s kvs = Some (v, rest) \<longrightarrow> length rest < length s)"
proof (induction n)
  case 0
  show ?case by simp
next
  case (Suc n)
  then have v: "\<And>s v rest. parse_value n s = Some (v, rest) \<Longrightarrow> length rest < length s"
    and e: "\<And>s acc v rest. parse_elements n s acc = Some (v, rest) \<Longrightarrow> length rest < length s"
    and m: "\<And>s kvs v rest. parse_members n s kvs = Some (v, rest) \<Longrightarrow> length rest < length s"
    by blast+
  have V: "length rest < length s" if "parse_value (Suc n) s = Some (v, rest)" for s v rest
    using e m that by (rule value_len_step)
  have E: "length rest < length s" if "parse_elements (Suc n) s acc = Some (v, rest)"
    for s acc v rest
    using v e that by (rule elements_len_step)
  have M: "length rest < length s" if "parse_members (Suc n) s kvs = Some (v, rest)"
    for s kvs v rest
    using v m that by (rule members_len_step)
  from V E M show ?case by blast
qed

lemma value_shorter: "parse_value n s = Some (v, rest) \<Longrightarrow> length rest < length s"
  using shorter_all by blast

lemma elements_shorter: "parse_elements n s acc = Some (v, rest) \<Longrightarrow> length rest < length s"
  using shorter_all by blast

lemma members_shorter: "parse_members n s kvs = Some (v, rest) \<Longrightarrow> length rest < length s"
  using shorter_all by blast

text \<open>A value that some fuel parses is parsed with twice the number of the characters it
  takes.\<close>

lemma mono_v: "parse_value n s = Some r \<Longrightarrow> n \<le> m \<Longrightarrow> parse_value m s = Some r"
  using fuel_mono3 by blast

lemma mono_e: "parse_elements n s acc = Some r \<Longrightarrow> n \<le> m \<Longrightarrow> parse_elements m s acc = Some r"
  using fuel_mono3 by blast

lemma mono_m: "parse_members n s kvs = Some r \<Longrightarrow> n \<le> m \<Longrightarrow> parse_members m s kvs = Some r"
  using fuel_mono3 by blast

lemma value_fuel_step:
  assumes e: "\<And>s acc v rest. parse_elements n s acc = Some (v, rest) \<Longrightarrow>
      parse_elements (2 * (length s - length rest)) s acc = Some (v, rest)"
    and m: "\<And>s kvs v rest. parse_members n s kvs = Some (v, rest) \<Longrightarrow>
      parse_members (2 * (length s - length rest)) s kvs = Some (v, rest)"
    and p: "parse_value (Suc n) s = Some (v, rest)"
  shows "parse_value (2 * (length s - length rest)) s = Some (v, rest)"
proof -
  have len: "length rest < length s"
    using p by (rule value_shorter)
  then obtain k where k: "2 * (length s - length rest) = Suc k"
    by (cases "2 * (length s - length rest)") auto
  let ?r = "skip_ws (drop 1 s)"
  consider (arr) "\<not> (starts_with s ''null'' \<or> starts_with s ''true'' \<or> starts_with s ''false'')"
        "\<not> starts_with s [CHR 0x22]" "starts_with s ''[''" "\<not> starts_with ?r '']''"
    | (obj) "\<not> (starts_with s ''null'' \<or> starts_with s ''true'' \<or> starts_with s ''false'')"
        "\<not> starts_with s [CHR 0x22]" "\<not> starts_with s ''[''" "starts_with s ''{''"
        "\<not> starts_with ?r ''}''"
    | (flat) "starts_with s ''null'' \<or> starts_with s ''true'' \<or> starts_with s ''false''
        \<or> starts_with s [CHR 0x22]
        \<or> (starts_with s ''['' \<and> starts_with ?r '']'')
        \<or> (\<not> starts_with s ''['' \<and> starts_with s ''{'' \<and> starts_with ?r ''}'')
        \<or> (\<not> starts_with s ''['' \<and> \<not> starts_with s ''{'')"
    by blast
  then have "parse_value (Suc k) s = Some (v, rest)"
  proof cases
    case arr
    with p have pe: "parse_elements n ?r [] = Some (v, rest)"
      by (simp add: Let_def)
    have "length ?r < length s"
      using arr(3) by (rule skip_drop_shorter)
    with k have "2 * (length ?r - length rest) \<le> k"
      by linarith
    with e [OF pe] have "parse_elements k ?r [] = Some (v, rest)"
      by (rule mono_e)
    with arr show ?thesis
      by (simp add: Let_def)
  next
    case obj
    with p have pm: "parse_members n ?r [] = Some (v, rest)"
      by (simp add: Let_def)
    have "length ?r < length s"
      using obj(4) by (rule skip_drop_shorter)
    with k have "2 * (length ?r - length rest) \<le> k"
      by linarith
    with m [OF pm] have "parse_members k ?r [] = Some (v, rest)"
      by (rule mono_m)
    with obj show ?thesis
      by (simp add: Let_def)
  next
    case flat
    with p show ?thesis
      by (auto simp: Let_def split: if_splits)
  qed
  with k show ?thesis by simp
qed

lemma elements_fuel_step:
  assumes v: "\<And>s v rest. parse_value n s = Some (v, rest) \<Longrightarrow>
      parse_value (2 * (length s - length rest)) s = Some (v, rest)"
    and e: "\<And>s acc v rest. parse_elements n s acc = Some (v, rest) \<Longrightarrow>
      parse_elements (2 * (length s - length rest)) s acc = Some (v, rest)"
    and p: "parse_elements (Suc n) s acc = Some (v, rest)"
  shows "parse_elements (2 * (length s - length rest)) s acc = Some (v, rest)"
proof -
  have len: "length rest < length s"
    using p by (rule elements_shorter)
  then obtain k where k: "2 * (length s - length rest) = Suc k"
    by (cases "2 * (length s - length rest)") auto
  from p obtain x rest1 where pv: "parse_value n s = Some (x, rest1)"
    by (auto split: option.splits)
  let ?r = "skip_ws rest1"
  have l1: "length rest1 < length s"
    using pv by (rule value_shorter)
  have lr: "length ?r \<le> length rest1"
    by (rule length_skip_ws)
  have "parse_elements (Suc k) s acc = Some (v, rest)"
  proof (cases "starts_with ?r '',''")
    case True
    let ?r2 = "skip_ws (drop 1 ?r)"
    from True p pv have pe: "parse_elements n ?r2 (acc @ [x]) = Some (v, rest)"
      by (simp add: Let_def)
    have l2: "length ?r2 < length ?r"
      using True by (rule skip_drop_shorter)
    have l3: "length rest < length ?r2"
      using pe by (rule elements_shorter)
    from k l1 lr l2 l3 have "2 * (length s - length rest1) \<le> k"
      by linarith
    with v [OF pv] have pv': "parse_value k s = Some (x, rest1)"
      by (rule mono_v)
    from k l1 lr l2 l3 have "2 * (length ?r2 - length rest) \<le> k"
      by linarith
    with e [OF pe] have "parse_elements k ?r2 (acc @ [x]) = Some (v, rest)"
      by (rule mono_e)
    with True pv' show ?thesis
      by (simp add: Let_def)
  next
    case False
    with p pv have c: "starts_with ?r '']''" and rest: "rest = drop 1 ?r" and val: "v = JArray (acc @ [x])"
      by (auto simp: Let_def split: if_splits)
    have "length (drop 1 ?r) < length ?r"
      using c by (rule starts_with_drop1)
    with rest have "length rest < length ?r"
      by simp
    with k l1 lr have "2 * (length s - length rest1) \<le> k"
      by linarith
    with v [OF pv] have pv': "parse_value k s = Some (x, rest1)"
      by (rule mono_v)
    with False c rest val show ?thesis
      by (simp add: Let_def)
  qed
  with k show ?thesis by simp
qed

lemma members_fuel_step:
  assumes v: "\<And>s v rest. parse_value n s = Some (v, rest) \<Longrightarrow>
      parse_value (2 * (length s - length rest)) s = Some (v, rest)"
    and m: "\<And>s kvs v rest. parse_members n s kvs = Some (v, rest) \<Longrightarrow>
      parse_members (2 * (length s - length rest)) s kvs = Some (v, rest)"
    and p: "parse_members (Suc n) s kvs = Some (v, rest)"
  shows "parse_members (2 * (length s - length rest)) s kvs = Some (v, rest)"
proof -
  have len: "length rest < length s"
    using p by (rule members_shorter)
  then obtain k where k: "2 * (length s - length rest) = Suc k"
    by (cases "2 * (length s - length rest)") auto
  from p have q: "starts_with s [CHR 0x22]"
    by (auto split: if_splits)
  with p obtain key rest0 where pc: "parse_chars (drop 1 s) [] = Some (key, rest0)"
    by (auto split: option.splits)
  let ?r = "skip_ws rest0"
  have l0: "length ?r < length s"
    using parse_chars_shorter [OF pc] length_skip_ws [of rest0] by simp
  from p q pc have c: "starts_with ?r '':''"
    by (auto simp: Let_def split: if_splits)
  let ?s1 = "skip_ws (drop 1 ?r)"
  from p q pc c obtain x rest1 where pv: "parse_value n ?s1 = Some (x, rest1)"
    by (auto simp: Let_def split: option.splits)
  have ls1: "length ?s1 < length ?r"
    using c by (rule skip_drop_shorter)
  have l1: "length rest1 < length ?s1"
    using pv by (rule value_shorter)
  let ?r1 = "skip_ws rest1"
  have lr1: "length ?r1 \<le> length rest1"
    by (rule length_skip_ws)
  have "parse_members (Suc k) s kvs = Some (v, rest)"
  proof (cases "starts_with ?r1 '',''")
    case True
    let ?r2 = "skip_ws (drop 1 ?r1)"
    from True p q pc c pv have pm: "parse_members n ?r2 (set_member key x kvs) = Some (v, rest)"
      by (simp add: Let_def)
    have l2: "length ?r2 < length ?r1"
      using True by (rule skip_drop_shorter)
    have l3: "length rest < length ?r2"
      using pm by (rule members_shorter)
    from k l0 ls1 l1 lr1 l2 l3 have "2 * (length ?s1 - length rest1) \<le> k"
      by linarith
    with v [OF pv] have pv': "parse_value k ?s1 = Some (x, rest1)"
      by (rule mono_v)
    from k l0 ls1 l1 lr1 l2 l3 have "2 * (length ?r2 - length rest) \<le> k"
      by linarith
    with m [OF pm] have "parse_members k ?r2 (set_member key x kvs) = Some (v, rest)"
      by (rule mono_m)
    with True q pc c pv' show ?thesis
      by (simp add: Let_def)
  next
    case False
    with p q pc c pv have c': "starts_with ?r1 ''}''" and rest: "rest = drop 1 ?r1"
      and val: "v = JObject (set_member key x kvs)"
      by (auto simp: Let_def split: if_splits)
    have "length (drop 1 ?r1) < length ?r1"
      using c' by (rule starts_with_drop1)
    with rest have "length rest < length ?r1"
      by simp
    with k l0 ls1 l1 lr1 have "2 * (length ?s1 - length rest1) \<le> k"
      by linarith
    with v [OF pv] have pv': "parse_value k ?s1 = Some (x, rest1)"
      by (rule mono_v)
    with False q pc c c' rest val show ?thesis
      by (simp add: Let_def)
  qed
  with k show ?thesis by simp
qed

lemma fuel_bound_all:
  "(\<forall>s v rest. parse_value n s = Some (v, rest) \<longrightarrow>
      parse_value (2 * (length s - length rest)) s = Some (v, rest))
   \<and> (\<forall>s acc v rest. parse_elements n s acc = Some (v, rest) \<longrightarrow>
      parse_elements (2 * (length s - length rest)) s acc = Some (v, rest))
   \<and> (\<forall>s kvs v rest. parse_members n s kvs = Some (v, rest) \<longrightarrow>
      parse_members (2 * (length s - length rest)) s kvs = Some (v, rest))"
proof (induction n)
  case 0
  show ?case by simp
next
  case (Suc n)
  then have v: "\<And>s v rest. parse_value n s = Some (v, rest) \<Longrightarrow>
      parse_value (2 * (length s - length rest)) s = Some (v, rest)"
    and e: "\<And>s acc v rest. parse_elements n s acc = Some (v, rest) \<Longrightarrow>
      parse_elements (2 * (length s - length rest)) s acc = Some (v, rest)"
    and m: "\<And>s kvs v rest. parse_members n s kvs = Some (v, rest) \<Longrightarrow>
      parse_members (2 * (length s - length rest)) s kvs = Some (v, rest)"
    by blast+
  have V: "parse_value (2 * (length s - length rest)) s = Some (v, rest)"
    if "parse_value (Suc n) s = Some (v, rest)" for s v rest
    using e m that by (rule value_fuel_step)
  have E: "parse_elements (2 * (length s - length rest)) s acc = Some (v, rest)"
    if "parse_elements (Suc n) s acc = Some (v, rest)" for s acc v rest
    using v e that by (rule elements_fuel_step)
  have M: "parse_members (2 * (length s - length rest)) s kvs = Some (v, rest)"
    if "parse_members (Suc n) s kvs = Some (v, rest)" for s kvs v rest
    using v m that by (rule members_fuel_step)
  from V E M show ?case by blast
qed

text \<open>The fuel of \<open>JSON_parse\<close> is enough: a text that some fuel parses is parsed.\<close>

lemma JSON_parse_fuel:
  "parse_value n (skip_ws text) = Some (v, rest) \<Longrightarrow>
   parse_value (Suc (2 * length text)) (skip_ws text) = Some (v, rest)"
proof -
  assume p: "parse_value n (skip_ws text) = Some (v, rest)"
  with fuel_bound_all [of n]
  have "parse_value (2 * (length (skip_ws text) - length rest)) (skip_ws text) = Some (v, rest)"
    by blast
  moreover have "2 * (length (skip_ws text) - length rest) \<le> Suc (2 * length text)"
    using length_skip_ws [of "text"] by linarith
  ultimately show ?thesis
    by (rule mono_v)
qed

section \<open>Properties of the event parser\<close>

lemma split_on_not_Nil: "split_on sep s \<noteq> []"
  by (induction s) (auto split: list.splits)

lemma split_on_append: "split_on sep (a @ sep # b) = split_on sep a @ split_on sep b"
proof (induction a)
  case Nil
  show ?case by simp
next
  case (Cons c a)
  obtain piece pieces where sa: "split_on sep a = piece # pieces"
    using split_on_not_Nil [of sep a] by (cases "split_on sep a") auto
  with Cons show ?case by simp
qed

lemma sse_lines_Nil: "sse_lines [] = []"
  by (simp add: sse_lines_def)

lemma sse_lines_append: "sse_lines (a @ CHR 0x0A # b) = sse_lines a @ sse_lines b"
  by (simp add: sse_lines_def split_on_append)

lemma sse_lines_boundary:
  assumes "a = [] \<or> b = [] \<or> last a = CHR 0x0A \<or> hd b = CHR 0x0A"
  shows "sse_lines (a @ b) = sse_lines a @ sse_lines b"
proof -
  consider "a = []" | "b = []" | "a \<noteq> []" "last a = CHR 0x0A" | "b \<noteq> []" "hd b = CHR 0x0A"
    using assms by blast
  then show ?thesis
  proof cases
    case 1
    then show ?thesis by (simp add: sse_lines_Nil)
  next
    case 2
    then show ?thesis by (simp add: sse_lines_Nil)
  next
    case 3
    then obtain a' where a: "a = a' @ [CHR 0x0A]"
      by (metis append_butlast_last_id)
    have "sse_lines a = sse_lines a'"
      using sse_lines_append [of a' "[]"] by (simp add: a sse_lines_Nil)
    moreover have "sse_lines (a @ b) = sse_lines a' @ sse_lines b"
      using sse_lines_append [of a' b] by (simp add: a)
    ultimately show ?thesis by simp
  next
    case 4
    then obtain b' where b: "b = CHR 0x0A # b'"
      by (cases b) auto
    have "sse_lines b = sse_lines b'"
      using sse_lines_append [of "[]" b'] by (simp add: b sse_lines_Nil)
    moreover have "sse_lines (a @ b) = sse_lines a @ sse_lines b'"
      using sse_lines_append [of a b'] by (simp add: b)
    ultimately show ?thesis by simp
  qed
qed

text \<open>
  Claim C1, as amended. The parser keeps nothing between two reads: the events of two
  successive reads are those parsed from the first piece followed by those parsed from
  the second. They are the events of the whole sequence read at once when the split is
  at a line boundary: a piece is empty, the first ends with a newline or the second
  begins with one.
\<close>

theorem reads_parsed_separately:
  "parseReads parse [a, b] = parseChunk parse a @ parseChunk parse b
   \<and> (a = [] \<or> b = [] \<or> last a = CHR 0x0A \<or> hd b = CHR 0x0A \<longrightarrow>
        parseReads parse [a, b] = parseReads parse [a @ b])"
proof (intro conjI impI)
  show "parseReads parse [a, b] = parseChunk parse a @ parseChunk parse b"
    by (simp add: parseReads_def)
next
  assume "a = [] \<or> b = [] \<or> last a = CHR 0x0A \<or> hd b = CHR 0x0A"
  then have "sse_lines (a @ b) = sse_lines a @ sse_lines b"
    by (rule sse_lines_boundary)
  then show "parseReads parse [a, b] = parseReads parse [a @ b]"
    by (simp add: parseReads_def parseChunk_def map_filter_def)
qed

text \<open>
  Claim C1 as stated fails: one frame read whole gives its event; split inside the
  frame, the first piece fails to parse, the second does not start with \<open>data: \<close>,
  and no event is parsed. The partial frame is not retained.
\<close>

theorem chunk_split_counterexample:
  "parseReads JSON_parse [frame_head @ frame_tail] = [partial_X_is]
   \<and> parseReads JSON_parse [frame_head, frame_tail] = []"
  by code_simp

theorem reads_parsed_separately_witness:
  "last frame_one = CHR 0x0A
   \<and> parseReads JSON_parse [frame_one, frame_head @ frame_tail]
       = parseReads JSON_parse [frame_one @ (frame_head @ frame_tail)]
   \<and> parseReads JSON_parse [frame_one, frame_head @ frame_tail]
       = [JObject [(''event'', JString ''updates''), (''data'', JNull)], partial_X_is]"
proof -
  have l: "last frame_one = CHR 0x0A"
    by (simp add: frame_one_def)
  have v: "parseReads JSON_parse [frame_one, frame_head @ frame_tail]
       = [JObject [(''event'', JString ''updates''), (''data'', JNull)], partial_X_is]"
    by code_simp
  have eq: "parseReads JSON_parse [frame_one, frame_head @ frame_tail]
       = parseReads JSON_parse [frame_one @ (frame_head @ frame_tail)]"
    using reads_parsed_separately [of JSON_parse frame_one "frame_head @ frame_tail"] l
    by blast
  from l eq v show ?thesis
    by (intro conjI)
qed

section \<open>Properties of the reducer\<close>

text \<open>What a render does, and what it leaves.\<close>

lemma render_idle: "queue st = [] \<Longrightarrow> render clock st = st"
  by (cases st) (simp add: render_def)

lemma runUpdater_frame:
  "queue (runUpdater clock u st) = queue st"
  "lastRetrievedDocs (runUpdater clock u st) = lastRetrievedDocs st"
  "console (runUpdater clock u st) = console st"
  by (cases u; simp add: setPartial_def Let_def)+

lemma fold_frame:
  "queue (fold (runUpdater clock) us st) = queue st"
  "lastRetrievedDocs (fold (runUpdater clock) us st) = lastRetrievedDocs st"
  "console (fold (runUpdater clock) us st) = console st"
  by (induction us arbitrary: st; simp add: runUpdater_frame)+

lemma render_frame:
  "queue (render clock st) = []"
  "lastRetrievedDocs (render clock st) = lastRetrievedDocs st"
  "console (render clock st) = console st"
  by (simp_all add: render_def fold_frame)

lemma render_render: "render clock (render clock st) = render clock st"
  by (simp add: render_idle render_frame)

lemma render_enqueue: "render clock (enqueue u st) = runUpdater clock u (render clock st)"
  by (simp add: render_def enqueue_def)

lemma setPartial_roles: "map role (messages (setPartial clock text st)) = map role (messages st)"
proof (cases "messages st \<noteq> [] \<and> role (last (messages st)) = Assistant")
  case True
  then obtain ms m where "messages st = ms @ [m]"
    by (metis append_butlast_last_id)
  with True show ?thesis
    by (simp add: setPartial_def Let_def)
next
  case False
  then show ?thesis
    by (auto simp: setPartial_def Let_def)
qed

lemma runUpdater_roles:
  "map role (messages (runUpdater clock u st)) = map role (messages st) @ appendedRoles u"
  by (cases u) (simp_all add: setPartial_roles)

lemma fold_roles:
  "map role (messages (fold (runUpdater clock) us st))
     = map role (messages st) @ concat (map appendedRoles us)"
  by (induction us arbitrary: st) (simp_all add: runUpdater_roles)

lemma render_roles:
  "map role (messages (render clock st))
     = map role (messages st) @ concat (map appendedRoles (queue st))"
  by (simp add: render_def fold_roles)

lemma trailing_roles:
  "trailingAssistant st
     = (map role (messages st) \<noteq> [] \<and> last (map role (messages st)) = Assistant)"
  by (auto simp: trailingAssistant_def last_map)

lemma trailing_render_cong:
  "messages st' = messages st \<Longrightarrow> queue st' = queue st \<Longrightarrow>
   trailingAssistant (render clock' st') = trailingAssistant (render clock st)"
  by (simp add: trailing_roles render_roles)

text \<open>The reducer runs on conversations that end with the assistant message: once React
  has run the updater of the submission, the assistant message is the last.\<close>

lemma submit_trailing: "trailingAssistant (render clock' (submit clock userMessage st))"
  by (simp add: trailing_roles render_roles submit_def Let_def)

lemma submit_page0:
  "render clock_id (submit clock_id ''What is X?'' page0) = page1"
  by (simp add: render_def submit_def page0_def page1_def clock_id_def Let_def)

lemma setPartial_trailing:
  "trailingAssistant st \<Longrightarrow>
   trailingAssistant (setPartial clock text st)
   \<and> content (last (messages (setPartial clock text st))) = text
   \<and> sources (last (messages (setPartial clock text st))) = Some (lastRetrievedDocs st)
   \<and> timestamp (last (messages (setPartial clock text st))) = Some (clock (dates st))
   \<and> butlast (messages (setPartial clock text st)) = butlast (messages st)"
  by (simp add: trailingAssistant_def setPartial_def Let_def)

text \<open>The reducer on the events that the notions above describe.\<close>

lemma applyEvent_partial:
  "partialText sseEvent = Some text \<Longrightarrow>
   applyEvent sseEvent st =
     (if \<not> starts_with text ''{'' then Inr (enqueue (SetPartial text) st) else Inr st)"
  unfolding partialText_def applyEvent_def
  by (cases "sseEvent = JNull")
    (auto simp: Let_def split: if_splits option.splits json.splits)

lemma applyEvent_update:
  "get_prop sseUpdate ''event'' = Some (JString ''updates'') \<Longrightarrow>
   applyEvent sseUpdate st =
     (if truthy (get_prop sseUpdate ''data'') then
        Inr (st\<lparr>lastRetrievedDocs :=
                 (case retrievedDocs (get_prop sseUpdate ''data'') of
                    Some documents \<Rightarrow> documents | None \<Rightarrow> [])\<rparr>)
      else Inr (st\<lparr>console := console st @
                  [UnknownEvent (Some (JString ''updates'')) (get_prop sseUpdate ''data'')]\<rparr>))"
  by (cases "sseUpdate = JNull") (auto simp: applyEvent_def Let_def split: option.splits)

lemma applyEvent_unknown:
  "sseEvent \<noteq> JNull \<Longrightarrow> \<not> handled sseEvent \<Longrightarrow>
   applyEvent sseEvent st =
     Inr (st\<lparr>console := console st @
            [UnknownEvent (get_prop sseEvent ''event'') (get_prop sseEvent ''data'')]\<rparr>)"
  by (auto simp: applyEvent_def handled_def Let_def)

text \<open>The shapes of the events of the upstream that the two notions accept.\<close>

lemma partialText_shape:
  "partialText (JObject [(''event'', JString ''messages/partial''),
      (''data'', JArray (earlier @ [JObject ((''type'', JString ''ai'') # (''content'', JString t) # others)]))])
     = Some t"
  by (simp add: partialText_def lastOf_def)

lemma retrievedDocs_shape:
  "retrievedDocs (Some (JObject [(''retrieveDocuments'', JObject ((''documents'', JArray ds) # others))]))
     = Some ds"
  by (simp add: retrievedDocs_def)

lemma applySteps_append:
  "applySteps clock xs st = (st1, None) \<Longrightarrow>
   applySteps clock (xs @ ys) st = applySteps clock ys st1"
proof (induction xs arbitrary: st)
  case Nil
  then show ?case by simp
next
  case (Cons x xs)
  show ?case
  proof (cases x)
    case Render
    with Cons show ?thesis by simp
  next
    case (Event ev)
    with Cons show ?thesis
      by (cases "applyEvent ev st") simp_all
  qed
qed

lemma partial_then_render:
  assumes "trailingAssistant (render clock st)"
    and "partialText ev = Some t" and "\<not> starts_with t ''{''"
  shows "applyEvent ev st = Inr (enqueue (SetPartial t) st)"
    and "render clock (enqueue (SetPartial t) st) = setPartial clock t (render clock st)"
    and "trailingAssistant (render clock (enqueue (SetPartial t) st))"
    and "content (last (messages (render clock (enqueue (SetPartial t) st)))) = t"
    and "sources (last (messages (render clock (enqueue (SetPartial t) st))))
           = Some (lastRetrievedDocs st)"
  using assms applyEvent_partial [of ev t st] setPartial_trailing [of "render clock st" clock t]
  by (simp_all add: render_enqueue render_frame)

lemma partials_run:
  "trailingAssistant (render clock st) \<Longrightarrow>
   \<forall>s \<in> set steps. s = Render \<or>
      (\<exists>e t. s = Event e \<and> partialText e = Some t \<and> \<not> starts_with t ''{'') \<Longrightarrow>
   \<exists>st'. applySteps clock steps st = (st', None) \<and> trailingAssistant (render clock st')"
proof (induction steps arbitrary: st)
  case Nil
  then show ?case by simp
next
  case (Cons s steps)
  from Cons.prems(2) have rest: "\<forall>s \<in> set steps. s = Render \<or>
      (\<exists>e t. s = Event e \<and> partialText e = Some t \<and> \<not> starts_with t ''{'')"
    by simp
  from Cons.prems(2) consider "s = Render"
    | e t where "s = Event e" "partialText e = Some t" "\<not> starts_with t ''{''"
    by auto
  then show ?case
  proof cases
    case 1
    from Cons.prems(1) have "trailingAssistant (render clock (render clock st))"
      by (simp add: render_render)
    from Cons.IH [OF this rest] 1 show ?thesis
      by simp
  next
    case 2
    from partial_then_render [OF Cons.prems(1) 2(2,3)]
    have step: "applyEvent e st = Inr (enqueue (SetPartial t) st)"
      and tr: "trailingAssistant (render clock (enqueue (SetPartial t) st))"
      by simp_all
    from Cons.IH [OF tr rest] step 2(1) show ?thesis
      by simp
  qed
qed

text \<open>
  Claim C4. Let the conversation end with the assistant message once React has run what
  it holds, as it does during a request. Take any sequence of partial-message events whose
  contents are plain strings that do not start with \<open>{\<close>, with renders wherever React
  places them. When React has rendered after the last of these events, the text of the
  trailing assistant message is the text of that event: each event replaces the text,
  none is appended.
\<close>

theorem partials_replace_text:
  "trailingAssistant (render clock st) \<and>
   (\<forall>s \<in> set steps. s = Render \<or>
      (\<exists>e t. s = Event e \<and> partialText e = Some t \<and> \<not> starts_with t ''{'')) \<and>
   partialText ev = Some text \<and> \<not> starts_with text ''{'' \<longrightarrow>
   (\<exists>st'. applySteps clock (steps @ [Event ev, Render]) st = (st', None)
      \<and> trailingAssistant st' \<and> content (last (messages st')) = text)"
proof
  assume a: "trailingAssistant (render clock st) \<and>
   (\<forall>s \<in> set steps. s = Render \<or>
      (\<exists>e t. s = Event e \<and> partialText e = Some t \<and> \<not> starts_with t ''{'')) \<and>
   partialText ev = Some text \<and> \<not> starts_with text ''{''"
  then obtain st1 where run: "applySteps clock steps st = (st1, None)"
    and tr: "trailingAssistant (render clock st1)"
    using partials_run [of clock st steps] by blast
  from a have t: "partialText ev = Some text" "\<not> starts_with text ''{''"
    by simp_all
  from applySteps_append [OF run, of "[Event ev, Render]"] partial_then_render [OF tr t]
  show "\<exists>st'. applySteps clock (steps @ [Event ev, Render]) st = (st', None)
      \<and> trailingAssistant st' \<and> content (last (messages st')) = text"
    by simp
qed

lemma page1_trailing: "trailingAssistant (render clock page1)"
  by (simp add: trailingAssistant_def page1_def render_def)

lemma partialText_X_is: "partialText partial_X_is = Some ''X is''"
  by (simp add: partialText_def partial_X_is_def lastOf_def)

lemma partialText_concept: "partialText partial_concept = Some ''X is a concept.''"
  by (simp add: partialText_def partial_concept_def lastOf_def)

theorem partials_replace_text_witness:
  "\<exists>st'. applySteps clock_id ([Event partial_X_is, Render, Event partial_X_is]
            @ [Event partial_concept, Render]) page1 = (st', None)
      \<and> trailingAssistant st' \<and> content (last (messages st')) = ''X is a concept.''"
proof -
  have "\<forall>s \<in> set [Event partial_X_is, Render, Event partial_X_is]. s = Render \<or>
      (\<exists>e t. s = Event e \<and> partialText e = Some t \<and> \<not> starts_with t ''{'')"
    by (simp add: partialText_X_is starts_with_def)
  moreover have "\<not> starts_with ''X is a concept.'' ''{''"
    by (simp add: starts_with_def)
  ultimately show ?thesis
    using partials_replace_text [of clock_id page1 "[Event partial_X_is, Render, Event partial_X_is]"
        partial_concept "''X is a concept.''"]
      page1_trailing [of clock_id] partialText_concept
    by simp
qed


lemma renders_run:
  "set renders \<subseteq> {Render} \<Longrightarrow>
   \<exists>st'. applySteps clock renders st = (st', None)
      \<and> render clock st' = render clock st
      \<and> lastRetrievedDocs st' = lastRetrievedDocs st"
proof (induction renders arbitrary: st)
  case Nil
  then show ?case by simp
next
  case (Cons r renders)
  then have r: "r = Render" and rest: "set renders \<subseteq> {Render}"
    by simp_all
  from Cons.IH [OF rest, of "render clock st"] r show ?case
    by (simp add: render_render render_frame)
qed

lemma update_then_partial:
  "trailingAssistant (render clock st) \<and> set renders \<subseteq> {Render} \<and>
   get_prop sseUpdate ''event'' = Some (JString ''updates'') \<and>
   partialText sseMessage = Some text \<and> \<not> starts_with text ''{'' \<longrightarrow>
   (\<exists>st'. applySteps clock (Event sseUpdate # renders @ [Event sseMessage, Render]) st
             = (st', None)
      \<and> content (last (messages st')) = text
      \<and> sources (last (messages st')) =
          Some (if truthy (get_prop sseUpdate ''data'') then
                  (case retrievedDocs (get_prop sseUpdate ''data'') of
                     Some documents \<Rightarrow> documents
                   | None \<Rightarrow> [])
                else lastRetrievedDocs st))"
proof
  assume a: "trailingAssistant (render clock st) \<and> set renders \<subseteq> {Render} \<and>
   get_prop sseUpdate ''event'' = Some (JString ''updates'') \<and>
   partialText sseMessage = Some text \<and> \<not> starts_with text ''{''"
  define ds where "ds = (if truthy (get_prop sseUpdate ''data'') then
                  (case retrievedDocs (get_prop sseUpdate ''data'') of
                     Some documents \<Rightarrow> documents
                   | None \<Rightarrow> [])
                else lastRetrievedDocs st)"
  from a obtain st1 where upd: "applyEvent sseUpdate st = Inr st1"
    and same: "messages st1 = messages st" "queue st1 = queue st"
    and docs: "lastRetrievedDocs st1 = ds"
    by (cases "truthy (get_prop sseUpdate ''data'')") (simp_all add: applyEvent_update ds_def)
  from same have "trailingAssistant (render clock st1) = trailingAssistant (render clock st)"
    by (rule trailing_render_cong)
  with a have tr1: "trailingAssistant (render clock st1)"
    by simp
  from a obtain st2 where run: "applySteps clock renders st1 = (st2, None)"
    and r2: "render clock st2 = render clock st1"
    and d2: "lastRetrievedDocs st2 = lastRetrievedDocs st1"
    using renders_run [of renders clock st1] by blast
  from tr1 r2 have tr2: "trailingAssistant (render clock st2)"
    by simp
  from a have t: "partialText sseMessage = Some text" "\<not> starts_with text ''{''"
    by simp_all
  from applySteps_append [OF run, of "[Event sseMessage, Render]"] partial_then_render [OF tr2 t]
  have "applySteps clock (renders @ [Event sseMessage, Render]) st1
          = (render clock (enqueue (SetPartial text) st2), None)"
    and "content (last (messages (render clock (enqueue (SetPartial text) st2)))) = text"
    and "sources (last (messages (render clock (enqueue (SetPartial text) st2)))) = Some ds"
    by (simp_all add: d2 docs)
  with upd show "\<exists>st'. applySteps clock (Event sseUpdate # renders @ [Event sseMessage, Render]) st
             = (st', None)
      \<and> content (last (messages st')) = text
      \<and> sources (last (messages st')) =
          Some (if truthy (get_prop sseUpdate ''data'') then
                  (case retrievedDocs (get_prop sseUpdate ''data'') of
                     Some documents \<Rightarrow> documents
                   | None \<Rightarrow> [])
                else lastRetrievedDocs st)"
    unfolding ds_def by simp
qed

text \<open>
  Claim C3, as the code has it. Let the conversation end with the assistant message once
  React has run what it holds. An \<open>updates\<close> event, then a partial-message event (plain
  text not starting with \<open>{\<close>), then a render (and renders, or none, between the two
  events) raise no error and leave the trailing assistant message with the text of the
  partial message and with these citations: when the \<open>data\<close> of the \<open>updates\<close> event is
  truthy, exactly the list \<open>data.retrieveDocuments.documents\<close> if that is a list and the
  empty list otherwise; when its \<open>data\<close> is absent or falsy, the event is logged as an
  unknown event and the citations are what the ref held before. So the data
  \<open>{retrieveDocuments: {documents: [...]}}\<close> gives exactly its documents, and the data
  \<open>null\<close> leaves what the ref held.
\<close>

theorem retrieval_then_partial:
  "trailingAssistant (render clock st) \<and> set renders \<subseteq> {Render} \<and>
   get_prop sseUpdate ''event'' = Some (JString ''updates'') \<and>
   partialText sseMessage = Some text \<and> \<not> starts_with text ''{'' \<longrightarrow>
   (\<exists>st'. applySteps clock (Event sseUpdate # renders @ [Event sseMessage, Render]) st
             = (st', None)
      \<and> content (last (messages st')) = text
      \<and> sources (last (messages st')) =
          Some (if truthy (get_prop sseUpdate ''data'') then
                  (case retrievedDocs (get_prop sseUpdate ''data'') of
                     Some documents \<Rightarrow> documents
                   | None \<Rightarrow> [])
                else lastRetrievedDocs st)
      \<and> (get_prop sseUpdate ''data''
            = Some (JObject [(''retrieveDocuments'', JObject [(''documents'', JArray docs)])]) \<longrightarrow>
          sources (last (messages st')) = Some docs)
      \<and> (get_prop sseUpdate ''data'' = Some JNull \<longrightarrow>
          sources (last (messages st')) = Some (lastRetrievedDocs st)))"
proof
  assume a: "trailingAssistant (render clock st) \<and> set renders \<subseteq> {Render} \<and>
   get_prop sseUpdate ''event'' = Some (JString ''updates'') \<and>
   partialText sseMessage = Some text \<and> \<not> starts_with text ''{''"
  with update_then_partial [of clock st renders sseUpdate sseMessage "text"]
  obtain st' where run: "applySteps clock (Event sseUpdate # renders @ [Event sseMessage, Render]) st
             = (st', None)"
    and c: "content (last (messages st')) = text"
    and s: "sources (last (messages st')) =
          Some (if truthy (get_prop sseUpdate ''data'') then
                  (case retrievedDocs (get_prop sseUpdate ''data'') of
                     Some documents \<Rightarrow> documents
                   | None \<Rightarrow> [])
                else lastRetrievedDocs st)"
    by auto
  have good: "sources (last (messages st')) = Some docs"
    if "get_prop sseUpdate ''data''
            = Some (JObject [(''retrieveDocuments'', JObject [(''documents'', JArray docs)])])"
    using s that by (simp add: retrievedDocs_def)
  have null: "sources (last (messages st')) = Some (lastRetrievedDocs st)"
    if "get_prop sseUpdate ''data'' = Some JNull"
    using s that by simp
  from run c s good null
  show "\<exists>st'. applySteps clock (Event sseUpdate # renders @ [Event sseMessage, Render]) st
             = (st', None)
      \<and> content (last (messages st')) = text
      \<and> sources (last (messages st')) =
          Some (if truthy (get_prop sseUpdate ''data'') then
                  (case retrievedDocs (get_prop sseUpdate ''data'') of
                     Some documents \<Rightarrow> documents
                   | None \<Rightarrow> [])
                else lastRetrievedDocs st)
      \<and> (get_prop sseUpdate ''data''
            = Some (JObject [(''retrieveDocuments'', JObject [(''documents'', JArray docs)])]) \<longrightarrow>
          sources (last (messages st')) = Some docs)
      \<and> (get_prop sseUpdate ''data'' = Some JNull \<longrightarrow>
          sources (last (messages st')) = Some (lastRetrievedDocs st))"
    by (intro exI [of _ st'] conjI impI)
qed

text \<open>
  Claim C3 as stated fails: after a retrieval of \<open>doc1\<close>, an \<open>updates\<close> event whose
  \<open>data\<close> is \<open>null\<close> carries no list of documents, yet the ref is not emptied: the event
  is logged as unknown and the next partial message is given the citation \<open>doc1\<close>.
\<close>

theorem stale_citations_counterexample:
  "applySteps clock_id [Event update_doc1, Event update_null, Event partial_X_is, Render] page1
     = (page1\<lparr>messages :=
          [\<lparr>role = User, content = ''What is X?'', sources = None, timestamp = Some 0\<rparr>,
           \<lparr>role = Assistant, content = ''X is'', sources = Some [doc1], timestamp = Some 1\<rparr>],
         lastRetrievedDocs := [doc1], dates := 2,
         console := [UnknownEvent (Some (JString ''updates'')) (Some JNull)]\<rparr>, None)
   \<and> retrievedDocs (get_prop update_null ''data'') = None"
  by (simp add: clock_id_def applyEvent_def page1_def update_doc1_def update_null_def
      partial_X_is_def retrievedDocs_def lastOf_def setPartial_def render_def enqueue_def
      starts_with_def Let_def)

theorem retrieval_then_partial_witness:
  "(\<exists>st'. applySteps clock_id (Event update_doc1 # [Render] @ [Event partial_X_is, Render]) page1
            = (st', None)
      \<and> content (last (messages st')) = ''X is''
      \<and> sources (last (messages st')) = Some [doc1])
   \<and> (\<exists>st'. applySteps clock_id (Event update_malformed # [] @ [Event partial_X_is, Render])
              (page1\<lparr>lastRetrievedDocs := [doc1]\<rparr>) = (st', None)
      \<and> content (last (messages st')) = ''X is''
      \<and> sources (last (messages st')) = Some [])
   \<and> (\<exists>st'. applySteps clock_id (Event update_null # [] @ [Event partial_X_is, Render])
              (page1\<lparr>lastRetrievedDocs := [doc1]\<rparr>) = (st', None)
      \<and> content (last (messages st')) = ''X is''
      \<and> sources (last (messages st')) = Some [doc1])"
proof -
  have t: "\<not> starts_with ''X is'' ''{''"
    by (simp add: starts_with_def)
  have good: "get_prop update_doc1 ''event'' = Some (JString ''updates'')"
    "get_prop update_doc1 ''data''
       = Some (JObject [(''retrieveDocuments'', JObject [(''documents'', JArray [doc1])])])"
    by (simp_all add: update_doc1_def)
  have bad: "get_prop update_malformed ''event'' = Some (JString ''updates'')"
    "truthy (get_prop update_malformed ''data'')"
    "retrievedDocs (get_prop update_malformed ''data'') = None"
    by (simp_all add: update_malformed_def retrievedDocs_def)
  have null: "get_prop update_null ''event'' = Some (JString ''updates'')"
    "get_prop update_null ''data'' = Some JNull"
    by (simp_all add: update_null_def)
  have "trailingAssistant (render clock_id (page1\<lparr>lastRetrievedDocs := [doc1]\<rparr>))
      = trailingAssistant (render clock_id page1)"
    by (rule trailing_render_cong) simp_all
  then have tr: "trailingAssistant (render clock_id (page1\<lparr>lastRetrievedDocs := [doc1]\<rparr>))"
    using page1_trailing [of clock_id] by simp
  have rs: "set [Render] \<subseteq> {Render}" "set ([] :: step list) \<subseteq> {Render}"
    by simp_all
  from retrieval_then_partial [of clock_id page1 "[Render]" update_doc1 partial_X_is "''X is''" "[doc1]"]
    page1_trailing [of clock_id] rs partialText_X_is t good
  have first: "\<exists>st'. applySteps clock_id (Event update_doc1 # [Render] @ [Event partial_X_is, Render]) page1
            = (st', None)
      \<and> content (last (messages st')) = ''X is''
      \<and> sources (last (messages st')) = Some [doc1]"
    by auto
  from retrieval_then_partial [of clock_id "page1\<lparr>lastRetrievedDocs := [doc1]\<rparr>" "[]"
        update_malformed partial_X_is "''X is''" "[]"]
    tr rs partialText_X_is t bad
  have second: "\<exists>st'. applySteps clock_id (Event update_malformed # [] @ [Event partial_X_is, Render])
              (page1\<lparr>lastRetrievedDocs := [doc1]\<rparr>) = (st', None)
      \<and> content (last (messages st')) = ''X is''
      \<and> sources (last (messages st')) = Some []"
    by auto
  from retrieval_then_partial [of clock_id "page1\<lparr>lastRetrievedDocs := [doc1]\<rparr>" "[]"
        update_null partial_X_is "''X is''" "[]"]
    tr rs partialText_X_is t null
  have third: "\<exists>st'. applySteps clock_id (Event update_null # [] @ [Event partial_X_is, Render])
              (page1\<lparr>lastRetrievedDocs := [doc1]\<rparr>) = (st', None)
      \<and> content (last (messages st')) = ''X is''
      \<and> sources (last (messages st')) = Some [doc1]"
    by auto
  from first second third show ?thesis
    by (intro conjI)
qed

text \<open>The citations are read when React runs the updater: a retrieval that the loop handles
  after the partial message and before the render is the one the message cites, and a
  render between the two leaves the message with what the ref held.\<close>

lemma citations_read_at_render:
  "applySteps clock_id
       [Event update_doc1, Event partial_X_is, Event update_malformed, Render] page1
     = (page1\<lparr>messages :=
          [\<lparr>role = User, content = ''What is X?'', sources = None, timestamp = Some 0\<rparr>,
           \<lparr>role = Assistant, content = ''X is'', sources = Some [], timestamp = Some 1\<rparr>],
         dates := 2\<rparr>, None)
   \<and> applySteps clock_id [Event partial_X_is, Event update_doc1, Render] page1
     = (page1\<lparr>messages :=
          [\<lparr>role = User, content = ''What is X?'', sources = None, timestamp = Some 0\<rparr>,
           \<lparr>role = Assistant, content = ''X is'', sources = Some [doc1], timestamp = Some 1\<rparr>],
         lastRetrievedDocs := [doc1], dates := 2\<rparr>, None)
   \<and> applySteps clock_id [Event partial_X_is, Render, Event update_doc1, Render] page1
     = (page1\<lparr>messages :=
          [\<lparr>role = User, content = ''What is X?'', sources = None, timestamp = Some 0\<rparr>,
           \<lparr>role = Assistant, content = ''X is'', sources = Some [], timestamp = Some 1\<rparr>],
         lastRetrievedDocs := [doc1], dates := 2\<rparr>, None)"
  by (simp add: clock_id_def applyEvent_def page1_def update_doc1_def update_malformed_def
      partial_X_is_def retrievedDocs_def lastOf_def setPartial_def render_def enqueue_def
      starts_with_def Let_def)


text \<open>Two clocks give conversations that differ in timestamps only.\<close>

lemma untimed_eq:
  "(untimed s = untimed s') =
     (map (\<lambda>m. m\<lparr>timestamp := None\<rparr>) (messages s) = map (\<lambda>m. m\<lparr>timestamp := None\<rparr>) (messages s')
      \<and> input s = input s' \<and> isLoading s = isLoading s'
      \<and> lastRetrievedDocs s = lastRetrievedDocs s' \<and> dates s = dates s'
      \<and> queue s = queue s' \<and> console s = console s' \<and> page.more s = page.more s')"
  by (cases s; cases s') (simp add: untimed_def)

lemma untimed_last:
  assumes "map (\<lambda>m. m\<lparr>timestamp := None\<rparr>) xs = map (\<lambda>m. m\<lparr>timestamp := None\<rparr>) ys"
    and "xs \<noteq> []"
  shows "ys \<noteq> []"
    and "role (last xs) = role (last ys)"
    and "map (\<lambda>m. m\<lparr>timestamp := None\<rparr>) (butlast xs @ [(last xs)\<lparr>content := c, sources := r, timestamp := t\<rparr>])
       = map (\<lambda>m. m\<lparr>timestamp := None\<rparr>) (butlast ys @ [(last ys)\<lparr>content := c, sources := r, timestamp := t'\<rparr>])"
proof -
  from assms show ne: "ys \<noteq> []"
    by auto
  from assms ne have l: "(last xs)\<lparr>timestamp := None\<rparr> = (last ys)\<lparr>timestamp := None\<rparr>"
    by (metis (no_types, lifting) last_map)
  then have "role ((last xs)\<lparr>timestamp := None\<rparr>) = role ((last ys)\<lparr>timestamp := None\<rparr>)"
    by simp
  then show "role (last xs) = role (last ys)"
    by simp
  from assms(1) have b: "map (\<lambda>m. m\<lparr>timestamp := None\<rparr>) (butlast xs) = map (\<lambda>m. m\<lparr>timestamp := None\<rparr>) (butlast ys)"
    by (simp add: map_butlast)
  from l have "(last xs)\<lparr>content := c, sources := r, timestamp := None\<rparr>
      = (last ys)\<lparr>content := c, sources := r, timestamp := None\<rparr>"
    by (cases "last xs"; cases "last ys") simp
  with b show "map (\<lambda>m. m\<lparr>timestamp := None\<rparr>) (butlast xs @ [(last xs)\<lparr>content := c, sources := r, timestamp := t\<rparr>])
       = map (\<lambda>m. m\<lparr>timestamp := None\<rparr>) (butlast ys @ [(last ys)\<lparr>content := c, sources := r, timestamp := t'\<rparr>])"
    by simp
qed

lemma untimed_setPartial:
  assumes "untimed s = untimed s'"
  shows "untimed (setPartial clock text s) = untimed (setPartial clock' text s')"
proof (cases "messages s = []")
  case True
  with assms have "messages s' = []"
    by (simp add: untimed_eq)
  with True assms show ?thesis
    by (simp add: setPartial_def)
next
  case False
  from assms have m: "map (\<lambda>m. m\<lparr>timestamp := None\<rparr>) (messages s)
      = map (\<lambda>m. m\<lparr>timestamp := None\<rparr>) (messages s')"
    by (simp add: untimed_eq)
  note l = untimed_last [OF m False]
  from assms l False show ?thesis
    by (simp add: untimed_eq setPartial_def Let_def)
qed

lemma untimed_runUpdater:
  "untimed s = untimed s' \<Longrightarrow>
   untimed (runUpdater clock u s) = untimed (runUpdater clock' u s')"
proof (cases u)
  case (SetPartial c)
  assume "untimed s = untimed s'"
  then show ?thesis
    unfolding SetPartial runUpdater.simps by (rule untimed_setPartial)
qed (simp_all add: untimed_eq)

lemma untimed_fold:
  "untimed s = untimed s' \<Longrightarrow>
   untimed (fold (runUpdater clock) us s) = untimed (fold (runUpdater clock') us s')"
proof (induction us arbitrary: s s')
  case Nil
  then show ?case by simp
next
  case (Cons u us)
  from Cons.prems have "untimed (runUpdater clock u s) = untimed (runUpdater clock' u s')"
    by (rule untimed_runUpdater)
  then show ?case
    using Cons.IH by simp
qed

lemma untimed_render: "untimed (render clock st) = untimed (render clock' st)"
  unfolding render_def by (rule untimed_fold) simp

lemma applyEvent_total: "sseEvent \<noteq> JNull \<Longrightarrow> \<exists>st'. applyEvent sseEvent st = Inr st'"
  by (auto simp: applyEvent_def Let_def split: option.splits json.splits)

lemma applyEvent_frame:
  "applyEvent sseEvent st = Inr st' \<Longrightarrow>
   messages st' = messages st \<and> input st' = input st \<and> isLoading st' = isLoading st
   \<and> dates st' = dates st"
  by (auto simp: applyEvent_def Let_def enqueue_def split: if_splits option.splits json.splits)

lemma applyEvent_console:
  "applyEvent sseEvent st = Inr st' \<Longrightarrow>
   console st' = (if handled sseEvent then console st
                  else console st @ [UnknownEvent (get_prop sseEvent ''event'')
                                       (get_prop sseEvent ''data'')])"
  by (auto simp: applyEvent_def handled_def Let_def enqueue_def
      split: if_splits option.splits json.splits)

lemma applyEvent_queue:
  "applyEvent sseEvent st = Inr st' \<Longrightarrow>
   queue st' = (case partialText sseEvent of
                  Some t \<Rightarrow> if starts_with t ''{'' then queue st else queue st @ [SetPartial t]
                | None \<Rightarrow> queue st)"
  by (auto simp: applyEvent_def partialText_def Let_def enqueue_def
      split: if_splits option.splits json.splits)

lemma applyEvent_docs:
  "applyEvent sseEvent st = Inr st' \<Longrightarrow>
   lastRetrievedDocs st' =
     (if get_prop sseEvent ''event'' = Some (JString ''updates'')
         \<and> truthy (get_prop sseEvent ''data'')
      then (case retrievedDocs (get_prop sseEvent ''data'') of
              Some documents \<Rightarrow> documents | None \<Rightarrow> [])
      else lastRetrievedDocs st)"
  by (auto simp: applyEvent_def Let_def enqueue_def split: if_splits option.splits json.splits)

text \<open>
  Claim C9, as the code has it. Handling an event other than \<open>null\<close> raises nothing and
  gives a state with the same messages: the reducer only hands an updater to React (an
  accepted partial message), assigns the ref (an \<open>updates\<close> event with truthy data), or
  writes a line to the console, which it does exactly for the events it has no branch for.
  The messages change when React runs the updaters, and then depend on the clock: two
  clocks give states that differ in the timestamps of the messages only.
\<close>

theorem reducer_effects:
  "(sseEvent \<noteq> JNull \<longrightarrow>
      (\<exists>st'. applyEvent sseEvent st = Inr st'
         \<and> messages st' = messages st \<and> input st' = input st \<and> isLoading st' = isLoading st
         \<and> dates st' = dates st
         \<and> queue st' = (case partialText sseEvent of
                          Some t \<Rightarrow>
                            if starts_with t ''{'' then queue st else queue st @ [SetPartial t]
                        | None \<Rightarrow> queue st)
         \<and> lastRetrievedDocs st' =
             (if get_prop sseEvent ''event'' = Some (JString ''updates'')
                 \<and> truthy (get_prop sseEvent ''data'')
              then (case retrievedDocs (get_prop sseEvent ''data'') of
                      Some documents \<Rightarrow> documents | None \<Rightarrow> [])
              else lastRetrievedDocs st)
         \<and> console st' = (if handled sseEvent then console st
                          else console st @ [UnknownEvent (get_prop sseEvent ''event'')
                                               (get_prop sseEvent ''data'')])))
   \<and> untimed (render clock st) = untimed (render clock' st)"
proof (intro conjI impI)
  assume "sseEvent \<noteq> JNull"
  then obtain st' where r: "applyEvent sseEvent st = Inr st'"
    using applyEvent_total by blast
  from applyEvent_frame [OF r] applyEvent_console [OF r] applyEvent_queue [OF r]
    applyEvent_docs [OF r] r
  show "\<exists>st'. applyEvent sseEvent st = Inr st'
         \<and> messages st' = messages st \<and> input st' = input st \<and> isLoading st' = isLoading st
         \<and> dates st' = dates st
         \<and> queue st' = (case partialText sseEvent of
                          Some t \<Rightarrow>
                            if starts_with t ''{'' then queue st else queue st @ [SetPartial t]
                        | None \<Rightarrow> queue st)
         \<and> lastRetrievedDocs st' =
             (if get_prop sseEvent ''event'' = Some (JString ''updates'')
                 \<and> truthy (get_prop sseEvent ''data'')
              then (case retrievedDocs (get_prop sseEvent ''data'') of
                      Some documents \<Rightarrow> documents | None \<Rightarrow> [])
              else lastRetrievedDocs st)
         \<and> console st' = (if handled sseEvent then console st
                          else console st @ [UnknownEvent (get_prop sseEvent ''event'')
                                               (get_prop sseEvent ''data'')])"
    by (intro exI [of _ st'] conjI) simp_all
next
  show "untimed (render clock st) = untimed (render clock' st)"
    by (rule untimed_render)
qed

text \<open>
  Claim C9 as stated fails. The same state and event give different messages under two
  clocks, and different citations when React runs the updater before or after a later
  event; the connection frame of the relay, an event without a branch, is written to the
  console; the event \<open>null\<close> (the frame \<open>data: null\<close>) raises a \<open>TypeError\<close>.
\<close>

theorem reducer_impure_counterexample:
  "fst (applySteps clock_1 [Event partial_X_is, Render] page1)
     \<noteq> fst (applySteps clock_2 [Event partial_X_is, Render] page1)
   \<and> fst (applySteps clock_1 [Event partial_X_is, Render, Event update_doc1, Render] page1)
     \<noteq> fst (applySteps clock_1 [Event partial_X_is, Event update_doc1, Render] page1)
   \<and> applyEvent (connectionFrame ''t0'') page1
       = Inr (page1\<lparr>console := [UnknownEvent None None]\<rparr>)
   \<and> applyEvent JNull page1 = Inl (OtherError ''TypeError'')"
  by (simp add: clock_1_def clock_2_def applyEvent_def page1_def partial_X_is_def update_doc1_def
      connectionFrame_def retrievedDocs_def lastOf_def setPartial_def render_def enqueue_def
      starts_with_def Let_def)

theorem reducer_effects_witness:
  "applyEvent partial_X_is page1 = Inr (page1\<lparr>queue := [SetPartial ''X is'']\<rparr>)
   \<and> applyEvent update_doc1 page1 = Inr (page1\<lparr>lastRetrievedDocs := [doc1]\<rparr>)
   \<and> applyEvent (connectionFrame ''t0'') page1
       = Inr (page1\<lparr>console := [UnknownEvent None None]\<rparr>)
   \<and> untimed (render clock_1 (page1\<lparr>queue := [SetPartial ''X is'']\<rparr>))
       = untimed (render clock_2 (page1\<lparr>queue := [SetPartial ''X is'']\<rparr>))"
proof -
  have ne: "partial_X_is \<noteq> JNull" "update_doc1 \<noteq> JNull" "connectionFrame ''t0'' \<noteq> JNull"
    by (simp_all add: partial_X_is_def update_doc1_def connectionFrame_def)
  have p: "handled partial_X_is" "\<not> starts_with ''X is'' ''{''"
    "get_prop partial_X_is ''event'' = Some (JString ''messages/partial'')"
    by (simp_all add: handled_def partial_X_is_def starts_with_def)
  have u: "handled update_doc1" "partialText update_doc1 = None"
    "get_prop update_doc1 ''event'' = Some (JString ''updates'')"
    "truthy (get_prop update_doc1 ''data'')"
    "retrievedDocs (get_prop update_doc1 ''data'') = Some [doc1]"
    by (simp_all add: handled_def partialText_def update_doc1_def retrievedDocs_def)
  have c: "\<not> handled (connectionFrame ''t0'')" "partialText (connectionFrame ''t0'') = None"
    "get_prop (connectionFrame ''t0'') ''event'' = None"
    "get_prop (connectionFrame ''t0'') ''data'' = None"
    by (simp_all add: handled_def partialText_def connectionFrame_def)
  have eq: "st' = page1\<lparr>queue := q, lastRetrievedDocs := d, console := l\<rparr>"
    if "messages st' = messages page1" "input st' = input page1"
      "isLoading st' = isLoading page1" "dates st' = dates page1"
      "queue st' = q" "lastRetrievedDocs st' = d" "console st' = l" for st' q d l
    using that by (cases st') (simp add: page1_def)
  from reducer_effects [of partial_X_is page1 clock_1 clock_2] ne p partialText_X_is
  obtain s1 where "applyEvent partial_X_is page1 = Inr s1"
    "messages s1 = messages page1" "input s1 = input page1"
    "isLoading s1 = isLoading page1" "dates s1 = dates page1"
    "queue s1 = queue page1 @ [SetPartial ''X is'']"
    "lastRetrievedDocs s1 = lastRetrievedDocs page1" "console s1 = console page1"
    by auto
  then have first: "applyEvent partial_X_is page1 = Inr (page1\<lparr>queue := [SetPartial ''X is'']\<rparr>)"
    using eq [of s1] by (simp add: page1_def)
  from reducer_effects [of update_doc1 page1 clock_1 clock_2] ne u
  obtain s2 where "applyEvent update_doc1 page1 = Inr s2"
    "messages s2 = messages page1" "input s2 = input page1"
    "isLoading s2 = isLoading page1" "dates s2 = dates page1"
    "queue s2 = queue page1"
    "lastRetrievedDocs s2 = [doc1]" "console s2 = console page1"
    by auto
  then have second: "applyEvent update_doc1 page1 = Inr (page1\<lparr>lastRetrievedDocs := [doc1]\<rparr>)"
    using eq [of s2] by (simp add: page1_def)
  from reducer_effects [of "connectionFrame ''t0''" page1 clock_1 clock_2] ne c
  obtain s3 where "applyEvent (connectionFrame ''t0'') page1 = Inr s3"
    "messages s3 = messages page1" "input s3 = input page1"
    "isLoading s3 = isLoading page1" "dates s3 = dates page1"
    "queue s3 = queue page1"
    "lastRetrievedDocs s3 = lastRetrievedDocs page1"
    "console s3 = console page1 @ [UnknownEvent None None]"
    by auto
  then have third: "applyEvent (connectionFrame ''t0'') page1
       = Inr (page1\<lparr>console := [UnknownEvent None None]\<rparr>)"
    using eq [of s3] by (simp add: page1_def)
  from reducer_effects [of JNull "page1\<lparr>queue := [SetPartial ''X is'']\<rparr>" clock_1 clock_2]
  have fourth: "untimed (render clock_1 (page1\<lparr>queue := [SetPartial ''X is'']\<rparr>))
       = untimed (render clock_2 (page1\<lparr>queue := [SetPartial ''X is'']\<rparr>))"
    by simp
  from first second third fourth show ?thesis
    by (intro conjI)
qed

text \<open>
  Claim C2. The error frame of the relay, \<open>{type: 'error', error: 'Connection
  interrupted', details, timestamp}\<close>, has no \<open>event\<close> field: the reducer has no branch
  for it and logs it as an unknown event. The trailing assistant message keeps its text,
  which is not the failure text, and its timestamp, and a partial message that follows the
  frame is still applied.
\<close>

theorem error_frame_not_handled:
  "errorFrame False (Some ''boom'') ''t1''
     = JObject [(''type'', JString ''error''), (''error'', JString ''Connection interrupted''),
                (''details'', JString ''Please try again''), (''timestamp'', JString ''t1'')]
   \<and> applySteps clock_id [Event (errorFrame False (Some ''boom'') ''t1''), Render] page1
       = (page1\<lparr>console := [UnknownEvent None None]\<rparr>, None)
   \<and> content (last (messages page1)) = []
   \<and> content (last (messages page1)) \<noteq> failureText
   \<and> timestamp (last (messages page1)) = Some 0
   \<and> applySteps clock_id
         [Event (errorFrame False (Some ''boom'') ''t1''), Event partial_X_is, Render] page1
       = (page1\<lparr>messages :=
            [\<lparr>role = User, content = ''What is X?'', sources = None, timestamp = Some 0\<rparr>,
             \<lparr>role = Assistant, content = ''X is'', sources = Some [], timestamp = Some 1\<rparr>],
           dates := 2, console := [UnknownEvent None None]\<rparr>, None)"
  by (simp add: clock_id_def applyEvent_def errorFrame_def page1_def partial_X_is_def lastOf_def
      setPartial_def render_def enqueue_def starts_with_def failureText_def Let_def)

text \<open>The reducer ignores the error frame whatever the state, the thrown value and the
  mode of the relay are.\<close>

lemma applyEvent_errorFrame:
  "applyEvent (errorFrame development thrown ts) st
     = Inr (st\<lparr>console := console st @ [UnknownEvent None None]\<rparr>)"
  by (simp add: applyEvent_def errorFrame_def Let_def)

end
